theory Spec2Isabelle
  imports Complex_Main "HOL-Library.Word" "HOL-Library.Multiset" "HOL-Library.Log_Nat"
    "HOL-Library.Product_Lexorder" "HOL-Library.List_Lexorder" "HOL-Library.Char_ord"
begin

unbundle bit_operations_syntax

section \<open>Swift runtime traps\<close>

text \<open>
  Swift stops the process on integer overflow, on division by zero, on a floating-point
  value that does not fit the integer it is converted to, and on a range whose upper bound
  is below its lower bound. Each of these is a value of \<open>trap\<close>; a function that can
  trap returns \<open>trap + 'a\<close>.
\<close>

datatype trap = ArithmeticOverflow | DivisionByZero | ConversionOutOfRange | InvalidRange

section \<open>DataTransformer (native module)\<close>

type_synonym u8 = "8 word"

text \<open>
  \<open>Array(str.utf8)\<close>: the input string is given as its UTF-8 bytes, which is what an
  Isabelle \<open>string\<close> holds.
\<close>

definition applyEncoding :: "string \<Rightarrow> u8 list" where
  "applyEncoding str = map of_char str"

text \<open>\<open>bytes.map { ($0 &+ 7) ^ 42 }\<close>: wrapping addition, then exclusive or.\<close>

definition applyTransformation :: "u8 list \<Rightarrow> u8 list" where
  "applyTransformation bytes = map (\<lambda>b. (b + 7) XOR 42) bytes"

text \<open>
  \<open>bytes.reduce(0, +)\<close> at element type \<open>UInt8\<close>: the accumulator is a \<open>UInt8\<close> and
  \<open>+\<close> traps when the sum leaves \<open>0..255\<close>.
\<close>

fun reduce_add :: "u8 \<Rightarrow> u8 list \<Rightarrow> trap + u8" where
  "reduce_add acc [] = Inr acc"
| "reduce_add acc (b # bs) =
     (if 255 < unat acc + unat b then Inl ArithmeticOverflow else reduce_add (acc + b) bs)"

text \<open>
  \<open>sum / bytes.count\<close> divides the \<open>UInt8\<close> sum by the \<open>Int\<close> count, here on
  their values, and traps when the count is zero. The quotient is at most 255, so the
  conversion \<open>UInt8(...)\<close> never fails; the subtraction \<open>&-\<close> wraps.
\<close>

definition applyNormalization :: "u8 list \<Rightarrow> trap + u8 list" where
  "applyNormalization bytes =
     (case reduce_add 0 bytes of
        Inl t \<Rightarrow> Inl t
      | Inr byteSum \<Rightarrow>
          if length bytes = 0 then Inl DivisionByZero
          else let average = (of_nat (unat byteSum div length bytes) :: u8)
               in Inr (map (\<lambda>b. b - average) bytes))"

definition hex_digit :: "nat \<Rightarrow> char" where
  "hex_digit n = ''0123456789abcdef'' ! n"

text \<open>\<open>String(format: "%02x", $0)\<close>: two lower-case hexadecimal digits.\<close>

definition format_02x :: "u8 \<Rightarrow> string" where
  "format_02x b = [hex_digit (unat b div 16), hex_digit (unat b mod 16)]"

definition applyFormatting :: "u8 list \<Rightarrow> string" where
  "applyFormatting bytes = concat (map format_02x bytes)"

definition transform :: "string \<Rightarrow> trap + string" where
  "transform input =
     (let step1 = applyEncoding input;
          step2 = applyTransformation step1
      in case applyNormalization step2 of
           Inl t \<Rightarrow> Inl t
         | Inr step3 \<Rightarrow> Inr (applyFormatting step3))"

section \<open>StateMachine (generic boilerplate)\<close>

text \<open>
  The class holds the current state, a dictionary of dictionaries and a list of observer
  closures. An observer is a closure \<open>(State) -> Void\<close> that can capture the machine and
  call its public methods: what an observer does with the machine, when it is told a
  state, is a list of calls. The field \<open>notified\<close> is not in the source: it records the
  states passed to observers, in the order of the calls, so that "no observer is notified"
  can be stated.
\<close>

datatype ('s, 'e) call =
  Send 'e
| AddTransition 's 'e 's
| Observe "'s \<Rightarrow> ('s, 'e) call list"

record ('s, 'e) StateMachine =
  currentState :: 's
  transitions :: "'s \<rightharpoonup> ('e \<rightharpoonup> 's)"
  observers :: "('s \<Rightarrow> ('s, 'e) call list) list"
  notified :: "'s list"

definition init_machine :: "'s \<Rightarrow> ('s, 'e) StateMachine" where
  "init_machine initialState =
     \<lparr>currentState = initialState, transitions = Map.empty, observers = [], notified = []\<rparr>"

definition addTransition ::
  "'s \<Rightarrow> 'e \<Rightarrow> 's \<Rightarrow> ('s, 'e) StateMachine \<Rightarrow> ('s, 'e) StateMachine" where
  "addTransition from event to m =
     (let t1 = (if transitions m from = None then (transitions m)(from \<mapsto> Map.empty)
                else transitions m)
      in case t1 from of
           None \<Rightarrow> m\<lparr>transitions := t1\<rparr>
         | Some row \<Rightarrow> m\<lparr>transitions := t1(from \<mapsto> row(event \<mapsto> to))\<rparr>)"

text \<open>\<open>transitions[currentState]?[event]\<close>: nil when either dictionary has no entry.\<close>

definition nextState :: "('s, 'e) StateMachine \<Rightarrow> 'e \<Rightarrow> 's option" where
  "nextState m event =
     (case transitions m (currentState m) of None \<Rightarrow> None | Some row \<Rightarrow> row event)"

text \<open>
  The work that remains while a method runs: calls that observers still have to make, and
  observers that \<open>observers.forEach { $0(currentState) }\<close> still has to call. \<open>forEach\<close>
  iterates over the array as it is when \<open>send\<close> reaches it, and each observer is passed
  the current state of the moment of its call. Observers that keep sending events make
  \<open>send\<close> run forever: \<open>exec\<close> takes one step per unit of fuel and is \<open>None\<close> when the
  fuel does not suffice.
\<close>

datatype ('s, 'e) task =
  Call "('s, 'e) call"
| Notify "'s \<Rightarrow> ('s, 'e) call list"

fun exec :: "nat \<Rightarrow> ('s, 'e) task list \<Rightarrow> ('s, 'e) StateMachine \<Rightarrow> ('s, 'e) StateMachine option" where
  "exec n [] m = Some m"
| "exec 0 (t # ts) m = None"
| "exec (Suc n) (Call (Send event) # ts) m =
     (case nextState m event of
        None \<Rightarrow> exec n ts m
      | Some nxt \<Rightarrow> exec n (map Notify (observers m) @ ts) (m\<lparr>currentState := nxt\<rparr>))"
| "exec (Suc n) (Call (AddTransition from event to) # ts) m =
     exec n ts (addTransition from event to m)"
| "exec (Suc n) (Call (Observe observer) # ts) m =
     exec n (Notify observer # ts) (m\<lparr>observers := observers m @ [observer]\<rparr>)"
| "exec (Suc n) (Notify observer # ts) m =
     exec n (map Call (observer (currentState m)) @ ts)
       (m\<lparr>notified := notified m @ [currentState m]\<rparr>)"

text \<open>
  \<open>send\<close>: without a transition it returns false at once; with one it writes the
  current state, calls the observers and returns true.
\<close>

definition send ::
  "nat \<Rightarrow> 'e \<Rightarrow> ('s, 'e) StateMachine \<Rightarrow> (bool \<times> ('s, 'e) StateMachine) option" where
  "send n event m =
     (case nextState m event of
        None \<Rightarrow> Some (False, m)
      | Some nxt \<Rightarrow>
          map_option (Pair True) (exec n (map Notify (observers m)) (m\<lparr>currentState := nxt\<rparr>)))"

definition observe ::
  "nat \<Rightarrow> ('s \<Rightarrow> ('s, 'e) call list) \<Rightarrow> ('s, 'e) StateMachine \<Rightarrow> ('s, 'e) StateMachine option" where
  "observe n observer m = exec n [Notify observer] (m\<lparr>observers := observers m @ [observer]\<rparr>)"

text \<open>
  Two observers: one that leaves the machine alone, and one that sends the event 4 when it
  is told the state 11.
\<close>

definition quiet :: "nat \<Rightarrow> (nat, nat) call list" where
  "quiet s = []"

definition resend :: "nat \<Rightarrow> (nat, nat) call list" where
  "resend s = (if s = 11 then [Send 4] else [])"

section \<open>ComplexAlgorithms (native module)\<close>

text \<open>
  A type \<open>T: Comparable\<close> brings its own operators \<open><\<close> and \<open>==\<close>: they are the
  parameters \<open>lt\<close> and \<open>eq\<close>, about which the functions assume nothing. \<open>a > b\<close> is
  \<open>b < a\<close>. Array slices are \<open>take\<close> and \<open>drop\<close>.

  \<open>quickSort\<close> recurses on the elements below and above the pivot; when \<open><\<close> relates
  the pivot to itself the recursion does not end, which is the value \<open>None\<close>.
\<close>

partial_function (option) quickSort ::
  "('a \<Rightarrow> 'a \<Rightarrow> bool) \<Rightarrow> ('a \<Rightarrow> 'a \<Rightarrow> bool) \<Rightarrow> 'a list \<Rightarrow> 'a list option" where
  "quickSort lt eq array =
     (if length array > 1 then
        (let pivot = array ! (length array div 2);
             less = filter (\<lambda>x. lt x pivot) array;
             equal = filter (\<lambda>x. eq x pivot) array;
             greater = filter (\<lambda>x. lt pivot x) array
         in Option.bind (quickSort lt eq less) (\<lambda>sortedLess.
              Option.bind (quickSort lt eq greater) (\<lambda>sortedGreater.
                Some (sortedLess @ equal @ sortedGreater))))
      else Some array)"

text \<open>
  The \<open>while\<close> loop of \<open>merge\<close>, with its three variables; it returns them at exit.
\<close>

function merge_loop ::
  "('a \<Rightarrow> 'a \<Rightarrow> bool) \<Rightarrow> 'a list \<Rightarrow> 'a list \<Rightarrow> nat \<Rightarrow> nat \<Rightarrow> 'a list \<Rightarrow> nat \<times> nat \<times> 'a list" where
  "merge_loop lt left right leftIndex rightIndex result =
     (if leftIndex < length left \<and> rightIndex < length right then
        (if lt (left ! leftIndex) (right ! rightIndex)
         then merge_loop lt left right (leftIndex + 1) rightIndex (result @ [left ! leftIndex])
         else merge_loop lt left right leftIndex (rightIndex + 1) (result @ [right ! rightIndex]))
      else (leftIndex, rightIndex, result))"
  by pat_completeness auto
termination
  by (relation "measure (\<lambda>(lt, left, right, leftIndex, rightIndex, result).
        (length left - leftIndex) + (length right - rightIndex))") auto

definition merge :: "('a \<Rightarrow> 'a \<Rightarrow> bool) \<Rightarrow> 'a list \<Rightarrow> 'a list \<Rightarrow> 'a list" where
  "merge lt left right =
     (case merge_loop lt left right 0 0 [] of
        (leftIndex, rightIndex, result) \<Rightarrow> result @ drop leftIndex left @ drop rightIndex right)"

function mergeSort :: "('a \<Rightarrow> 'a \<Rightarrow> bool) \<Rightarrow> 'a list \<Rightarrow> 'a list" where
  "mergeSort lt array =
     (if length array > 1 then
        (let middle = length array div 2;
             left = mergeSort lt (take middle array);
             right = mergeSort lt (drop middle array)
         in merge lt left right)
      else array)"
  by pat_completeness auto
termination
  by (relation "measure (\<lambda>(lt, array). length array)") auto

declare quickSort.simps [code]

declare merge_loop.simps [simp del] mergeSort.simps [simp del]






section \<open>Binary64 arithmetic\<close>

text \<open>
  A finite \<open>Double\<close> (Swift) or \<open>Number\<close> (JavaScript) is a rational number. Every
  arithmetic operation computes the exact result and rounds it to the nearest binary64
  value, ties to the even significand: \<open>fl64\<close>. The unit in the last place of \<open>x\<close> is
  \<open>2 ^ (e - 52)\<close> with \<open>e = \<lfloor>log\<^sub>2 \<bar>x\<bar>\<rfloor>\<close>, and never less than \<open>2 ^ - 1074\<close>
  (subnormal range). The values that occur below stay under \<open>2 ^ 72\<close>, far from the
  overflow threshold \<open>2 ^ 1024\<close>, so infinities and NaN do not arise.
\<close>

definition pow2 :: "int \<Rightarrow> rat" where
  "pow2 e = (if 0 \<le> e then 2 ^ nat e else 1 / 2 ^ nat (- e))"

text \<open>\<open>\<lfloor>log\<^sub>2 x\<rfloor>\<close> for \<open>x > 0\<close>, from the bit lengths of numerator and denominator.\<close>

definition ilog2 :: "rat \<Rightarrow> int" where
  "ilog2 x = (case quotient_of x of (a, b) \<Rightarrow>
     (let e = bitlen a - bitlen b in if pow2 e \<le> x then e else e - 1))"

definition round_half_even :: "rat \<Rightarrow> int" where
  "round_half_even q =
     (let f = \<lfloor>q\<rfloor>; d = q - of_int f
      in if d < 1 / 2 then f else if 1 / 2 < d then f + 1 else if even f then f else f + 1)"

definition fl64 :: "rat \<Rightarrow> rat" where
  "fl64 x =
     (if x = 0 then 0
      else let e = max (ilog2 \<bar>x\<bar>) (- 1022); ulp = pow2 (e - 52)
           in of_int (round_half_even (x / ulp)) * ulp)"


definition ulp :: "rat \<Rightarrow> rat" where
  "ulp x = pow2 (max (ilog2 \<bar>x\<bar>) (- 1022) - 52)"

section \<open>HeavyProcessor and MatrixCalculator (native module)\<close>

text \<open>
  Swift's \<open>Int\<close> is a 64-bit signed integer whose arithmetic traps on overflow:
  \<open>checked\<close> is the range check applied to every exact result.
\<close>

definition int_min :: int where "int_min = - (2 ^ 63)"
definition int_max :: int where "int_max = 2 ^ 63 - 1"

definition checked :: "int \<Rightarrow> trap + int" where
  "checked n = (if int_min \<le> n \<and> n \<le> int_max then Inr n else Inl ArithmeticOverflow)"

text \<open>\<open>map\<close> with a closure that can trap: the first trap ends the evaluation.\<close>

fun map_trap :: "('a \<Rightarrow> trap + 'b) \<Rightarrow> 'a list \<Rightarrow> trap + 'b list" where
  "map_trap f [] = Inr []"
| "map_trap f (x # xs) =
     (case f x of
        Inl t \<Rightarrow> Inl t
      | Inr y \<Rightarrow> (case map_trap f xs of Inl t \<Rightarrow> Inl t | Inr ys \<Rightarrow> Inr (y # ys)))"

text \<open>\<open>(0..<count).map { start + $0 * 7 }\<close>\<close>

definition generateSequence :: "int \<Rightarrow> nat \<Rightarrow> trap + int list" where
  "generateSequence start cnt =
     map_trap (\<lambda>k. case checked (int k * 7) of
                       Inl t \<Rightarrow> Inl t
                     | Inr p \<Rightarrow> checked (start + p)) [0..<cnt]"

text \<open>\<open>Double(n)\<close> rounds an integer to the nearest binary64 value.\<close>

definition double_of_int :: "int \<Rightarrow> rat" where
  "double_of_int n = fl64 (of_int n)"

text \<open>\<open>sequence.map { Double($0) * 3.14159 / 2.71828 }\<close>, evaluated left to right.\<close>

definition transformSequence :: "int list \<Rightarrow> rat list" where
  "transformSequence sequence =
     map (\<lambda>n. fl64 (fl64 (double_of_int n * fl64 (314159 / 100000)) / fl64 (271828 / 100000)))
       sequence"

definition filterSequence :: "rat list \<Rightarrow> int \<Rightarrow> rat list" where
  "filterSequence sequence threshold = filter (\<lambda>d. d > double_of_int threshold) sequence"

text \<open>
  \<open>Int(d)\<close> rounds towards zero and traps when the result is not a 64-bit integer.
\<close>

definition int_of_double :: "rat \<Rightarrow> trap + int" where
  "int_of_double d =
     (if - (2 ^ 63) - 1 < d \<and> d < 2 ^ 63
      then Inr (if 0 \<le> d then \<lfloor>d\<rfloor> else \<lceil>d\<rceil>)
      else Inl ConversionOutOfRange)"

text \<open>\<open>Int(sequence.reduce(0, +))\<close>: every addition is rounded.\<close>

definition reduceSequence :: "rat list \<Rightarrow> trap + int" where
  "reduceSequence sequence = int_of_double (foldl (\<lambda>a d. fl64 (a + d)) 0 sequence)"

definition complexCalculation :: "int \<Rightarrow> int \<Rightarrow> trap + int" where
  "complexCalculation input iteration =
     (case generateSequence input 100 of
        Inl t \<Rightarrow> Inl t
      | Inr intermediate1 \<Rightarrow>
          (let intermediate2 = transformSequence intermediate1;
               intermediate3 = filterSequence intermediate2 iteration
           in reduceSequence intermediate3))"

text \<open>The loop \<open>for i in 0..<1000\<close> over the remaining indices.\<close>

fun process_loop :: "nat list \<Rightarrow> int \<Rightarrow> trap + int" where
  "process_loop [] result = Inr result"
| "process_loop (i # rest) result =
     (case complexCalculation result (int i) of
        Inl t \<Rightarrow> Inl t
      | Inr r \<Rightarrow> process_loop rest r)"

definition processLargeDataset :: "int \<Rightarrow> trap + int" where
  "processLargeDataset v = process_loop [0..<1000] v"

text \<open>
  \<open>MatrixCalculator.generateMatrix\<close>. The element functions call \<open>sin\<close>, \<open>cos\<close>,
  \<open>tan\<close>, \<open>pow\<close>, \<open>sqrt\<close> and \<open>log\<close> of the C library, which never trap; they are
  the parameters \<open>calculateElement\<close> (row, column, size) and \<open>transformElement\<close>.
  The range \<open>0..<actualSize\<close> traps when \<open>actualSize\<close> is negative.
\<close>

definition transformMatrix :: "('d \<Rightarrow> 'd) \<Rightarrow> 'd list list \<Rightarrow> 'd list list" where
  "transformMatrix transformElement matrix = map (\<lambda>row. map transformElement row) matrix"

definition generateMatrix ::
  "(int \<Rightarrow> int \<Rightarrow> int \<Rightarrow> 'd) \<Rightarrow> ('d \<Rightarrow> 'd) \<Rightarrow> int \<Rightarrow> trap + 'd list list" where
  "generateMatrix calculateElement transformElement sz =
     (let actualSize = min sz 100
      in if actualSize < 0 then Inl InvalidRange
         else Inr (transformMatrix transformElement
                (map (\<lambda>i. map (\<lambda>j. calculateElement (int i) (int j) actualSize)
                                [0..<nat actualSize])
                   [0..<nat actualSize])))"

text \<open>The functions that \<open>HeavyComputationModule\<close> exports to JavaScript.\<close>

definition compute :: "int \<Rightarrow> trap + int" where
  "compute v = processLargeDataset v"

definition calculateMatrix ::
  "(int \<Rightarrow> int \<Rightarrow> int \<Rightarrow> 'd) \<Rightarrow> ('d \<Rightarrow> 'd) \<Rightarrow> int \<Rightarrow> trap + 'd list list" where
  "calculateMatrix calculateElement transformElement sz =
     generateMatrix calculateElement transformElement sz"

section \<open>ShazamScreen and LibraryScreen (React components)\<close>

record song =
  title :: string
  artist :: string

text \<open>A history entry is \<open>{ ...randomSong, timestamp: Date.now() }\<close>.\<close>

record history_entry =
  entry_song :: "song option"
  timestamp :: nat

definition mockSongs :: "song list" where
  "mockSongs =
     [\<lparr>title = ''Blinding Lights'', artist = ''The Weeknd''\<rparr>,
      \<lparr>title = ''Shape of You'', artist = ''Ed Sheeran''\<rparr>,
      \<lparr>title = ''Levitating'', artist = ''Dua Lipa''\<rparr>,
      \<lparr>title = ''Watermelon Sugar'', artist = ''Harry Styles''\<rparr>,
      \<lparr>title = ''Bad Guy'', artist = ''Billie Eilish''\<rparr>]"

text \<open>
  The functions of \<open>ShazamScreen\<close> are \<open>async\<close>: each runs up to its next \<open>await\<close> of a
  native promise and is resumed when that promise settles, and other events (a press, a
  timer, another promise) are handled in between. The promises that a function of the
  component is waiting for are \<open>requestPermissionsAsync\<close> (awaited by \<open>requestPermissions\<close>,
  called from the mount effect or from \<open>startRecording\<close>), \<open>setAudioModeAsync\<close> and
  \<open>createAsync\<close> (awaited by \<open>startRecording\<close>) and \<open>stopAndUnloadAsync\<close> of a recording
  (awaited by \<open>stopRecording\<close>).
\<close>

datatype origin = OnMount | OnPress

datatype 'r awaited =
    RequestPermissionsAsync origin
  | SetAudioModeAsync
  | CreateAsync
  | StopAndUnloadAsync 'r

text \<open>
  The state of the two components: the \<open>useState\<close> cells of \<open>ShazamScreen\<close>, the promises
  its functions are waiting for, the callbacks it has handed to \<open>setTimeout\<close> (delay in
  milliseconds and the recording the closure captured), the lines written with
  \<open>console.error\<close>, and the \<open>history\<close> cell of \<open>LibraryScreen\<close>. A recording object of
  \<open>expo-av\<close> is a value of the type \<open>'r\<close>.
\<close>

record 'r app =
  isRecording :: bool
  recording :: "'r option"
  hasPermission :: bool
  result :: "song option"
  awaiting :: "'r awaited list"
  timers :: "(nat \<times> 'r) list"
  errors :: "string list"
  history :: "history_entry list"

definition initial :: "'r app" where
  "initial = \<lparr>isRecording = False, recording = None, hasPermission = False, result = None,
              awaiting = [], timers = [], errors = [], history = []\<rparr>"

text \<open>
  What the environment answers when a promise settles: the outcome of
  \<open>Audio.requestPermissionsAsync\<close> (\<open>None\<close> when it rejects), whether \<open>setAudioModeAsync\<close>
  succeeds, the recording returned by \<open>createAsync\<close> (\<open>None\<close> when it rejects), whether
  \<open>stopAndUnloadAsync\<close> succeeds, the value of \<open>Math.random()\<close> and of \<open>Date.now()\<close>.
\<close>

record 'r env =
  permission :: "bool option"
  audioModeSet :: bool
  created :: "'r option"
  stopped :: bool
  random :: rat
  now :: nat

text \<open>\<open>Math.random()\<close> returns a binary64 value that is at least 0 and less than 1.\<close>

definition is_random_value :: "rat \<Rightarrow> bool" where
  "is_random_value x \<longleftrightarrow> fl64 x = x \<and> 0 \<le> x \<and> x < 1"

definition await :: "'r awaited \<Rightarrow> 'r app \<Rightarrow> 'r app" where
  "await p s = s\<lparr>awaiting := awaiting s @ [p]\<rparr>"

definition console_error :: "string \<Rightarrow> 'r app \<Rightarrow> 'r app" where
  "console_error msg s = s\<lparr>errors := errors s @ [msg]\<rparr>"

text \<open>
  \<open>requestPermissions\<close>, up to its \<open>await\<close> and from it. When the request rejects, the
  exception reaches the caller: the mount effect does not handle it, \<open>startRecording\<close>
  catches it.
\<close>

definition requestPermissions :: "origin \<Rightarrow> 'r app \<Rightarrow> 'r app" where
  "requestPermissions caller s = await (RequestPermissionsAsync caller) s"

definition requestPermissions_resumed :: "origin \<Rightarrow> 'r env \<Rightarrow> 'r app \<Rightarrow> 'r app" where
  "requestPermissions_resumed caller e s =
     (case permission e of
        Some granted \<Rightarrow> s\<lparr>hasPermission := granted\<rparr>
      | None \<Rightarrow> (case caller of
                   OnMount \<Rightarrow> s
                 | OnPress \<Rightarrow> console_error ''Failed to start recording'' s))"

text \<open>\<open>getHistory\<close> and \<open>saveHistory\<close>: "In a real app, use AsyncStorage".\<close>

definition getHistory :: "history_entry list" where
  "getHistory = []"

definition saveHistory :: "history_entry list \<Rightarrow> 'r app \<Rightarrow> 'r app" where
  "saveHistory h s = s"

text \<open>
  \<open>startRecording\<close>: up to its first \<open>await\<close>, from \<open>setAudioModeAsync\<close> to \<open>createAsync\<close>,
  and from \<open>createAsync\<close> to the end. The state cells are written, and the timer is set,
  only in the last part.
\<close>

definition startRecording :: "'r app \<Rightarrow> 'r app" where
  "startRecording s =
     (if \<not> hasPermission s then requestPermissions OnPress s
      else await SetAudioModeAsync s)"

definition startRecording_audioModeSet :: "'r env \<Rightarrow> 'r app \<Rightarrow> 'r app" where
  "startRecording_audioModeSet e s =
     (if audioModeSet e then await CreateAsync s
      else console_error ''Failed to start recording'' s)"

definition startRecording_created :: "'r env \<Rightarrow> 'r app \<Rightarrow> 'r app" where
  "startRecording_created e s =
     (case created e of
        None \<Rightarrow> console_error ''Failed to start recording'' s
      | Some newRecording \<Rightarrow>
          s\<lparr>recording := Some newRecording, isRecording := True, result := None,
            timers := timers s @ [(3000, newRecording)]\<rparr>)"

text \<open>\<open>mockSongs[i]\<close>: \<open>undefined\<close> outside the array.\<close>

definition song_at :: "int \<Rightarrow> song option" where
  "song_at i = (if 0 \<le> i \<and> i < int (length mockSongs) then Some (mockSongs ! nat i) else None)"

text \<open>\<open>Math.floor(Math.random() * mockSongs.length)\<close>: one rounded multiplication.\<close>

definition random_index :: "rat \<Rightarrow> int" where
  "random_index x = \<lfloor>fl64 (x * of_nat (length mockSongs))\<rfloor>"

text \<open>
  \<open>stopRecording\<close>, up to the \<open>await\<close> of \<open>stopAndUnloadAsync\<close> and from it. \<open>getHistory\<close>
  and \<open>saveHistory\<close> return promises that are already resolved, and nothing reads the
  state after them, so the second part runs to the end of the function.
\<close>

definition stopRecording :: "'r option \<Rightarrow> 'r app \<Rightarrow> 'r app" where
  "stopRecording recordingInstance s =
     (let recordingToStop = (case recordingInstance of Some r \<Rightarrow> Some r | None \<Rightarrow> recording s)
      in case recordingToStop of
           None \<Rightarrow> s
         | Some r \<Rightarrow> await (StopAndUnloadAsync r) s)"

definition stopRecording_stopped :: "'r env \<Rightarrow> 'r app \<Rightarrow> 'r app" where
  "stopRecording_stopped e s =
     (if \<not> stopped e then console_error ''Failed to stop recording'' s
      else let s' = s\<lparr>isRecording := False, recording := None\<rparr>;
               randomSong = song_at (random_index (random e));
               s'' = s'\<lparr>result := randomSong\<rparr>;
               savedHistory = getHistory;
               unshifted = \<lparr>entry_song = randomSong, timestamp = now e\<rparr> # savedHistory
           in saveHistory (take 50 unshifted) s'')"

text \<open>
  The button: \<open>onPress={isRecording ? undefined : startRecording}\<close> and
  \<open>disabled={isRecording}\<close>.
\<close>

definition press :: "'r app \<Rightarrow> 'r app" where
  "press s = (if isRecording s then s else startRecording s)"

text \<open>
  The oldest pending timer fires: \<open>stopRecording(newRecording)\<close>. All delays are equal, so
  timers fire in the order in which they were set.
\<close>

definition timer_fires :: "'r app \<Rightarrow> 'r app" where
  "timer_fires s =
     (case timers s of
        [] \<Rightarrow> s
      | (delay, r) # pending \<Rightarrow> stopRecording (Some r) (s\<lparr>timers := pending\<rparr>))"

text \<open>A promise settles, and the function that awaits it is resumed.\<close>

fun resume :: "'r awaited \<Rightarrow> 'r env \<Rightarrow> 'r app \<Rightarrow> 'r app" where
  "resume (RequestPermissionsAsync caller) e s = requestPermissions_resumed caller e s"
| "resume SetAudioModeAsync e s = startRecording_audioModeSet e s"
| "resume CreateAsync e s = startRecording_created e s"
| "resume (StopAndUnloadAsync r) e s = stopRecording_stopped e s"

definition settled :: "nat \<Rightarrow> 'r env \<Rightarrow> 'r app \<Rightarrow> 'r app" where
  "settled k e s =
     (if k < length (awaiting s)
      then resume (awaiting s ! k) e
             (s\<lparr>awaiting := take k (awaiting s) @ drop (Suc k) (awaiting s)\<rparr>)
      else s)"

text \<open>\<open>LibraryScreen.loadHistory\<close>: "For now, show empty state".\<close>

definition loadHistory :: "'r app \<Rightarrow> 'r app" where
  "loadHistory s = s\<lparr>history := []\<rparr>"

text \<open>
  The events of the application: the two screens mount, the button is pressed, the oldest
  timer fires, and the \<open>k\<close>-th awaited promise settles (in any order).
\<close>

datatype event = ShazamMounted | Pressed | TimerFired | Settled nat | LibraryMounted

fun step :: "'r app \<Rightarrow> event \<times> 'r env \<Rightarrow> 'r app" where
  "step s (ShazamMounted, e) = requestPermissions OnMount s"
| "step s (Pressed, e) = press s"
| "step s (TimerFired, e) = timer_fires s"
| "step s (Settled k, e) = settled k e s"
| "step s (LibraryMounted, e) = loadHistory s"

definition run :: "(event \<times> 'r env) list \<Rightarrow> 'r app" where
  "run evs = foldl step initial evs"

section \<open>Fingerprint Index (specified, not implemented)\<close>

text \<open>
  The Fingerprint Index of section 4.2 and the entities \<open>Fingerprint\<close> and \<open>Track\<close> of
  section 3 exist in the spec only: the recognition of the source is the mock above. The
  definitions of this section follow the spec's words.
\<close>

text \<open>
  Modelled from the spec: the \<open>hash\<close> of a \<open>Fingerprint\<close> is a 32-bit integer (section 3); the source has
  no fingerprint.
\<close>

type_synonym hash32 = "32 word"

text \<open>
  Modelled from the spec: the entity \<open>Fingerprint\<close> of section 3, absent from the source; \<open>trackId\<close> is
  set for reference fingerprints and absent for query fingerprints.
\<close>

record fingerprint =
  hash :: hash32
  anchorTimeMs :: int
  trackId :: "string option"

text \<open>
  Modelled from the spec: the entity \<open>Track\<close> of section 3, absent from the source (\<open>id\<close>, \<open>title\<close> and
  \<open>artist\<close> carry the prefix \<open>track_\<close>).
\<close>

record track =
  track_id :: string
  track_title :: string
  track_artist :: string
  fingerprints :: "fingerprint list"

text \<open>
  Modelled from the spec: the storage of the Fingerprint Index (4.2), absent from the source: a mapping
  from hash to a list of \<open>(trackId, anchorTimeMs)\<close> pairs.
\<close>

type_synonym index = "hash32 \<rightharpoonup> (string \<times> int) list"

text \<open>
  Modelled from the spec: \<open>lookup\<close> of the index (4.2), absent from the source; an absent hash gives the
  empty sequence, not an error.
\<close>

definition lookup :: "index \<Rightarrow> hash32 \<Rightarrow> (string \<times> int) list" where
  "lookup idx h = (case idx h of None \<Rightarrow> [] | Some entries \<Rightarrow> entries)"

text \<open>
  Modelled from the spec: \<open>remove\<close> of the index (4.2), absent from the source; it deletes all entries of
  a track id and is a no-op on an unknown id.
\<close>

definition remove :: "string \<Rightarrow> index \<Rightarrow> index" where
  "remove tid idx = (\<lambda>h. map_option (filter (\<lambda>entry. fst entry \<noteq> tid)) (idx h))"

text \<open>
  Modelled from the spec: the append of one \<open>(trackId, anchorTimeMs)\<close> pair to the list of a hash (4.2),
  absent from the source.
\<close>

definition append_entry :: "string \<Rightarrow> index \<Rightarrow> fingerprint \<Rightarrow> index" where
  "append_entry tid idx f = idx(hash f \<mapsto> lookup idx (hash f) @ [(tid, anchorTimeMs f)])"

text \<open>
  Modelled from the spec: \<open>add\<close> of the index (4.2), absent from the source; re-adding an id replaces its
  prior entries, so the entries of the id are removed before one entry per fingerprint of
  the track is appended, in their order.
\<close>

definition add :: "track \<Rightarrow> index \<Rightarrow> index" where
  "add t idx = foldl (append_entry (track_id t)) (remove (track_id t) idx) (fingerprints t)"

text \<open>The entries that \<open>add\<close> appends under one hash, for stating what \<open>add\<close> stores.\<close>

definition entries_of :: "string \<Rightarrow> fingerprint list \<Rightarrow> hash32 \<Rightarrow> (string \<times> int) list" where
  "entries_of tid fs h = map (\<lambda>f. (tid, anchorTimeMs f)) (filter (\<lambda>f. hash f = h) fs)"

section \<open>Matching engine (specified, not implemented)\<close>

text \<open>
  The Fingerprint Extractor (4.1), the Candidate Matcher (4.3), the ingestion interface
  (6) and the path \<open>Extracting \<rightarrow> Matching \<rightarrow> Completed\<close> of the Recognition Session (4.4)
  exist in the spec only. The spectral transform and the pairing of peaks, which the spec
  leaves open, are the parameter \<open>pairs\<close>: the hashes and anchor times found in an audio
  buffer. Deadline, cancellation and the capture states are not modelled. The spec names
  the field \<open>alignmentOffsetMs\<close> without defining it; it is the lower edge of the best
  bin.
\<close>

text \<open>
  Modelled from the spec: the entity \<open>AudioFrame\<close> of section 3, absent from the source: an ordered
  sequence of amplitude samples.
\<close>

type_synonym audio = "int list"

text \<open>
  Modelled from the spec: the error kind \<open>InsufficientAudio\<close> of section 7, absent from the source.
\<close>

datatype engine_error = InsufficientAudio

text \<open>
  Modelled from the spec: the configuration surface of section 6, absent from the source: minimum audio
  window, bin width, match vote threshold (a minimum and a percentage of the query
  fingerprints) and acceptance confidence threshold.
\<close>

record config =
  minWindow :: nat
  binWidthMs :: int
  minVotes :: nat
  minVotePercent :: nat
  acceptanceThreshold :: rat

text \<open>
  Modelled from the spec: the defaults that sections 4.1, 4.3 and 4.4 give as examples: 1024 samples,
  bins of 50 ms, at least 5 per cent of the query fingerprints and at least 10 votes,
  acceptance threshold 0.1.
\<close>

definition default_config :: config where
  "default_config =
     \<lparr>minWindow = 1024, binWidthMs = 50, minVotes = 10, minVotePercent = 5,
      acceptanceThreshold = 1 / 10\<rparr>"

text \<open>
  Modelled from the spec: \<open>extract\<close> of the Fingerprint Extractor (4.1), absent from the source and
  named \<open>extract_fp\<close> here: \<open>InsufficientAudio\<close> below the minimum window, no
  \<open>trackId\<close>, ascending \<open>anchorTimeMs\<close> with ties by ascending hash. The peak pairs of
  the audio are the parameter \<open>pairs\<close>.
\<close>

definition extract_fp ::
  "(audio \<Rightarrow> (hash32 \<times> int) list) \<Rightarrow> config \<Rightarrow> audio \<Rightarrow> engine_error + fingerprint list" where
  "extract_fp pairs cfg a =
     (if length a < minWindow cfg then Inl InsufficientAudio
      else Inr (sort_key (\<lambda>f. (anchorTimeMs f, hash f))
                  (map (\<lambda>(h, t). \<lparr>hash = h, anchorTimeMs = t, trackId = None\<rparr>) (pairs a))))"

text \<open>
  Modelled from the spec: the engine that the interfaces of section 6 act on, absent from the source: the
  index and the tracks it owns.
\<close>

record engine =
  index_of :: index
  catalog :: "string \<rightharpoonup> track"

text \<open>
  Modelled from the spec: the engine before any ingestion; the source has none.
\<close>

definition empty_engine :: engine where
  "empty_engine = \<lparr>index_of = Map.empty, catalog = Map.empty\<rparr>"

text \<open>
  Modelled from the spec: \<open>ingest\<close> of section 6, absent from the source: it computes the fingerprints by
  \<open>extract\<close>, sets the track's id in them and stores the track by \<open>add\<close>.
\<close>

definition ingest ::
  "(audio \<Rightarrow> (hash32 \<times> int) list) \<Rightarrow> config \<Rightarrow> string \<Rightarrow> string \<Rightarrow> string \<Rightarrow> audio \<Rightarrow> engine
     \<Rightarrow> engine_error + track \<times> engine" where
  "ingest pairs cfg tid ttl art a eng =
     (case extract_fp pairs cfg a of
        Inl err \<Rightarrow> Inl err
      | Inr fps \<Rightarrow>
          (let t = \<lparr>track_id = tid, track_title = ttl, track_artist = art,
                    fingerprints = map (\<lambda>f. f\<lparr>trackId := Some tid\<rparr>) fps\<rparr>
           in Inr (t, eng\<lparr>index_of := add t (index_of eng), catalog := (catalog eng)(tid \<mapsto> t)\<rparr>)))"

text \<open>
  Modelled from the spec: the first step of \<open>match\<close> (4.3), absent from the source: for every query
  fingerprint and every hit of its hash, \<open>delta = indexedAnchorTimeMs - queryAnchorTimeMs\<close>,
  kept with the track id of the hit.
\<close>

definition hits :: "fingerprint list \<Rightarrow> index \<Rightarrow> (string \<times> int) list" where
  "hits qs idx =
     concat (map (\<lambda>q. map (\<lambda>entry. (fst entry, snd entry - anchorTimeMs q)) (lookup idx (hash q))) qs)"

text \<open>
  Modelled from the spec: the fixed-width time bin of a delta (4.3), absent from the source.
\<close>

definition bin_of :: "config \<Rightarrow> int \<Rightarrow> int" where
  "bin_of cfg delta = delta div binWidthMs cfg"

text \<open>
  Modelled from the spec: the votes of a track in one bin (4.3), absent from the source: the number of
  hits of the track whose delta falls into the bin.
\<close>

definition votes_in :: "config \<Rightarrow> (string \<times> int) list \<Rightarrow> string \<Rightarrow> int \<Rightarrow> nat" where
  "votes_in cfg hs tid b = length (filter (\<lambda>hit. fst hit = tid \<and> bin_of cfg (snd hit) = b) hs)"

text \<open>
  Modelled from the spec: the bins in which a track has votes (4.3), absent from the source.
\<close>

definition bins_of :: "config \<Rightarrow> (string \<times> int) list \<Rightarrow> string \<Rightarrow> int list" where
  "bins_of cfg hs tid = remdups (map (\<lambda>hit. bin_of cfg (snd hit)) (filter (\<lambda>hit. fst hit = tid) hs))"

text \<open>
  Modelled from the spec: the best alignment of a track (4.3), absent from the source: the bin with the
  most votes, the first one met among equals.
\<close>

definition best_bin :: "config \<Rightarrow> (string \<times> int) list \<Rightarrow> string \<Rightarrow> int" where
  "best_bin cfg hs tid =
     (case bins_of cfg hs tid of
        [] \<Rightarrow> 0
      | b # bs \<Rightarrow>
          fold (\<lambda>c best. if votes_in cfg hs tid best < votes_in cfg hs tid c then c else best) bs b)"

text \<open>
  Modelled from the spec: the entity \<open>MatchCandidate\<close> of section 3, absent from the source (\<open>trackId\<close>
  is \<open>cand_trackId\<close>).
\<close>

record candidate =
  cand_trackId :: string
  alignmentOffsetMs :: int
  votes :: nat

text \<open>
  Modelled from the spec: the candidate of a track (4.3), absent from the source: its votes are those of
  its best bin.
\<close>

definition candidate_of :: "config \<Rightarrow> (string \<times> int) list \<Rightarrow> string \<Rightarrow> candidate" where
  "candidate_of cfg hs tid =
     \<lparr>cand_trackId = tid,
      alignmentOffsetMs = best_bin cfg hs tid * binWidthMs cfg,
      votes = votes_in cfg hs tid (best_bin cfg hs tid)\<rparr>"

text \<open>
  Modelled from the spec: the minimum threshold of 4.3, absent from the source: at least \<open>minVotes\<close>
  votes and at least \<open>minVotePercent\<close> per cent of the number of query fingerprints.
\<close>

definition meets_threshold :: "config \<Rightarrow> nat \<Rightarrow> nat \<Rightarrow> bool" where
  "meets_threshold cfg n v \<longleftrightarrow> minVotes cfg \<le> v \<and> minVotePercent cfg * n \<le> 100 * v"

text \<open>
  Modelled from the spec: \<open>match\<close> of the Candidate Matcher (4.3), absent from the source: the
  candidates that meet the threshold, best first, by descending votes with ties by
  ascending \<open>trackId\<close>.
\<close>

definition match :: "config \<Rightarrow> fingerprint list \<Rightarrow> index \<Rightarrow> candidate list" where
  "match cfg qs idx =
     (let hs = hits qs idx;
          cands = map (candidate_of cfg hs) (remdups (map fst hs));
          kept = filter (\<lambda>c. meets_threshold cfg (length qs) (votes c)) cands
      in sort_key (\<lambda>c. (- int (votes c), cand_trackId c)) kept)"

text \<open>
  Modelled from the spec: the status of a \<open>RecognitionResult\<close> (section 3), absent from the source.
\<close>

datatype status = Matched | NoMatch | TimedOut | Failed

text \<open>
  Modelled from the spec: the entity \<open>RecognitionResult\<close> of section 3, absent from the source
  (\<open>track\<close> is \<open>res_track\<close>).
\<close>

record recognition_result =
  status :: status
  res_track :: "track option"
  confidence :: rat

text \<open>
  Modelled from the spec: one Recognition Session (4.4) from a delivered buffer to its result, without
  timeout; the source has no session. \<open>Failed\<close> when extraction fails; otherwise the
  confidence of the top candidate is \<open>votes / totalQueryFingerprints\<close> clamped to
  \<open>[0, 1]\<close> (4.3), \<open>Matched\<close> when it reaches the acceptance threshold, \<open>NoMatch\<close>
  when it does not or when there is no candidate.
\<close>

definition recognise ::
  "(audio \<Rightarrow> (hash32 \<times> int) list) \<Rightarrow> config \<Rightarrow> audio \<Rightarrow> engine \<Rightarrow> recognition_result" where
  "recognise pairs cfg a eng =
     (case extract_fp pairs cfg a of
        Inl err \<Rightarrow> \<lparr>status = Failed, res_track = None, confidence = 0\<rparr>
      | Inr qs \<Rightarrow>
          (case match cfg qs (index_of eng) of
             [] \<Rightarrow> \<lparr>status = NoMatch, res_track = None, confidence = 0\<rparr>
           | best # others \<Rightarrow>
               (let c = min 1 (max 0 (of_nat (votes best) / of_nat (length qs)))
                in if acceptanceThreshold cfg \<le> c
                   then \<lparr>status = Matched, res_track = catalog eng (cand_trackId best), confidence = c\<rparr>
                   else \<lparr>status = NoMatch, res_track = None, confidence = c\<rparr>)))"

text \<open>
  Two instances of the parameter \<open>pairs\<close>, for evaluating the engine: an extractor that
  finds no peak above the noise floor, and one that finds ten peak pairs.
\<close>

definition no_pairs :: "audio \<Rightarrow> (hash32 \<times> int) list" where
  "no_pairs a = []"

definition ten_pairs :: "audio \<Rightarrow> (hash32 \<times> int) list" where
  "ten_pairs a = [(11, 0), (12, 20), (13, 40), (14, 60), (15, 80),
                  (16, 100), (17, 120), (18, 140), (19, 160), (20, 180)]"

section \<open>Properties of DataTransformer\<close>

lemma reduce_add_overflow:
  "255 < unat acc + sum_list (map unat bs) \<Longrightarrow> reduce_add acc bs = Inl ArithmeticOverflow"
proof (induction bs arbitrary: acc)
  case Nil
  have "unat acc < 256" using unsigned_less [of acc] by simp
  with Nil show ?case by simp
next
  case (Cons b bs)
  show ?case
  proof (cases "255 < unat acc + unat b")
    case True
    then show ?thesis by simp
  next
    case False
    then have "unat (acc + b) = unat acc + unat b"
      by (simp add: unat_word_ariths)
    with Cons.prems have "255 < unat (acc + b) + sum_list (map unat bs)" by simp
    from Cons.IH [OF this] False show ?thesis by simp
  qed
qed

lemma reduce_add_ok:
  "unat acc + sum_list (map unat bs) \<le> 255 \<Longrightarrow>
     reduce_add acc bs = Inr (of_nat (unat acc + sum_list (map unat bs)))"
proof (induction bs arbitrary: acc)
  case Nil
  then show ?case by simp
next
  case (Cons b bs)
  then have small: "unat acc + unat b \<le> 255" by simp
  then have eq: "unat (acc + b) = unat acc + unat b"
    by (simp add: unat_word_ariths)
  with Cons.prems have "unat (acc + b) + sum_list (map unat bs) \<le> 255" by simp
  from Cons.IH [OF this] small eq show ?case by (simp add: add.assoc)
qed

text \<open>
  C9. \<open>DataTransformer.transform\<close> is not total: on the empty string the average divides
  by the byte count zero and traps, and on every input whose transformed bytes sum to more
  than 255 the \<open>UInt8\<close> accumulation traps by overflow, so no hexadecimal string is
  returned.
\<close>

theorem transform_not_total:
  "transform [] = Inl DivisionByZero \<and>
   (255 < sum_list (map unat (applyTransformation (applyEncoding input)))
      \<longrightarrow> transform input = Inl ArithmeticOverflow)"
proof
  show "transform [] = Inl DivisionByZero"
    by (simp add: transform_def applyEncoding_def applyTransformation_def applyNormalization_def)
next
  show "255 < sum_list (map unat (applyTransformation (applyEncoding input)))
      \<longrightarrow> transform input = Inl ArithmeticOverflow"
  proof
    assume "255 < sum_list (map unat (applyTransformation (applyEncoding input)))"
    then have "reduce_add 0 (applyTransformation (applyEncoding input)) = Inl ArithmeticOverflow"
      using reduce_add_overflow [of 0 "applyTransformation (applyEncoding input)"] by simp
    then show "transform input = Inl ArithmeticOverflow"
      by (simp add: transform_def applyNormalization_def)
  qed
qed


theorem transform_not_total_witness:
  "255 < sum_list (map unat (applyTransformation (applyEncoding ''zz''))) \<and>
   transform ''zz'' = Inl ArithmeticOverflow"
proof -
  have h: "255 < sum_list (map unat (applyTransformation (applyEncoding ''zz'')))"
    by (simp add: applyEncoding_def applyTransformation_def)
  with transform_not_total [of "''zz''"] show ?thesis by blast
qed

lemma transform_returns:
  assumes "input \<noteq> []"
    and "sum_list (map unat (applyTransformation (applyEncoding input))) \<le> 255"
  shows "\<exists>hex. transform input = Inr hex \<and> length hex = 2 * length input"
proof -
  let ?bs = "applyTransformation (applyEncoding input)"
  have len: "length ?bs = length input"
    by (simp add: applyTransformation_def applyEncoding_def)
  from assms(2) have "reduce_add 0 ?bs = Inr (of_nat (sum_list (map unat ?bs)))"
    using reduce_add_ok [of 0 ?bs] by simp
  with assms(1) len have "\<exists>out. applyNormalization ?bs = Inr out \<and> length out = length input"
    by (simp add: applyNormalization_def Let_def)
  then obtain out where out: "applyNormalization ?bs = Inr out" "length out = length input"
    by blast
  have "length (applyFormatting out) = 2 * length out"
    by (induction out) (simp_all add: applyFormatting_def format_02x_def)
  with out show ?thesis by (simp add: transform_def)
qed

section \<open>Properties of StateMachine\<close>

lemma nextState_addTransition:
  "nextState (addTransition from event to m) event' =
     (if currentState m = from \<and> event' = event then Some to else nextState m event')"
  by (auto simp: nextState_def addTransition_def Let_def split: option.splits)

lemma exec_quiet:
  "(\<forall>ob \<in> set obs. ob (currentState m) = []) \<Longrightarrow> length obs \<le> n \<Longrightarrow>
     exec n (map Notify obs) m =
       Some (m\<lparr>notified := notified m @ replicate (length obs) (currentState m)\<rparr>)"
proof (induction obs arbitrary: n m)
  case Nil
  then show ?case by simp
next
  case (Cons ob obs)
  then obtain k where n: "n = Suc k" by (cases n) auto
  let ?m = "m\<lparr>notified := notified m @ [currentState m]\<rparr>"
  have "exec k (map Notify obs) ?m =
      Some (?m\<lparr>notified := notified ?m @ replicate (length obs) (currentState ?m)\<rparr>)"
    by (rule Cons.IH) (use Cons.prems n in simp_all)
  with Cons.prems n show ?case by (simp add: replicate_app_Cons_same)
qed

lemma exec_notified:
  "exec n ts m = Some m' \<Longrightarrow> \<exists>more. notified m' = notified m @ more"
proof (induction n ts m rule: exec.induct)
  case (1 n m)
  then show ?case by simp
next
  case (2 t ts m)
  then show ?case by simp
next
  case (3 n event ts m)
  then show ?case by (auto simp: split: option.splits)
next
  case (4 n "from" event to ts m)
  then show ?case by (auto simp: addTransition_def Let_def split: option.splits)
next
  case (5 n observer ts m)
  then show ?case by auto
next
  case (6 n observer ts m)
  then show ?case by auto
qed

lemma exec_first_notified:
  assumes "exec n (Notify ob # ts) m = Some m'"
  shows "\<exists>more. notified m' = notified m @ currentState m # more"
proof -
  from assms obtain k where n: "n = Suc k" by (cases n) auto
  with assms have "exec k (map Call (ob (currentState m)) @ ts)
      (m\<lparr>notified := notified m @ [currentState m]\<rparr>) = Some m'"
    by simp
  from exec_notified [OF this] show ?thesis by auto
qed

text \<open>
  C10 as stated fails in its second half: with the transitions 10 to 11 on event 3 and 11
  to 12 on event 4, and an observer that sends 4 when it is told 11, \<open>send(3)\<close> returns
  true with the current state 12, which is not the target registered for 3.
\<close>

theorem send_target_counterexample:
  "nextState \<lparr>currentState = 10, transitions = [10 \<mapsto> [3 \<mapsto> 11], 11 \<mapsto> [4 \<mapsto> 12]],
               observers = [resend], notified = []\<rparr> 3 = Some 11 \<and>
   send 5 3 \<lparr>currentState = 10, transitions = [10 \<mapsto> [3 \<mapsto> 11], 11 \<mapsto> [4 \<mapsto> 12]],
              observers = [resend], notified = []\<rparr>
   = Some (True, \<lparr>currentState = 12, transitions = [10 \<mapsto> [3 \<mapsto> 11], 11 \<mapsto> [4 \<mapsto> 12]],
                   observers = [resend], notified = [11, 12]\<rparr>)"
  by (simp add: send_def nextState_def resend_def eval_nat_numeral)

text \<open>
  C10, amended. \<open>StateMachine.send\<close> is atomic on failure: when the dictionaries hold no
  transition from the current state on the event, \<open>send\<close> returns false, the machine is
  unchanged and no observer is notified. When they hold one and \<open>send\<close> returns, it
  returns true, and the current state was the registered target when the first observer
  was called; it is the registered target when \<open>send\<close> returns if no observer calls back
  into the machine.
\<close>

theorem send_atomic_on_failure:
  "((\<forall>row. transitions m (currentState m) = Some row \<longrightarrow> row event = None) \<longrightarrow>
      send n event m = Some (False, m)) \<and>
   (\<forall>row target. transitions m (currentState m) = Some row \<and> row event = Some target \<longrightarrow>
      (\<forall>b m'. send n event m = Some (b, m') \<longrightarrow>
         b = True \<and> (observers m \<noteq> [] \<longrightarrow> (\<exists>more. notified m' = notified m @ target # more))) \<and>
      ((\<forall>ob \<in> set (observers m). ob target = []) \<and> length (observers m) \<le> n \<longrightarrow>
         send n event m =
           Some (True, m\<lparr>currentState := target,
                          notified := notified m @ replicate (length (observers m)) target\<rparr>)))"
proof (intro conjI allI impI)
  assume "\<forall>row. transitions m (currentState m) = Some row \<longrightarrow> row event = None"
  then have "nextState m event = None"
    by (auto simp: nextState_def split: option.splits)
  then show "send n event m = Some (False, m)" by (simp add: send_def)
next
  fix row target b m'
  assume t: "transitions m (currentState m) = Some row \<and> row event = Some target"
    and s: "send n event m = Some (b, m')"
  from t have nx: "nextState m event = Some target" by (simp add: nextState_def)
  with s show "b = True" by (auto simp: send_def)
next
  fix row target b m'
  assume t: "transitions m (currentState m) = Some row \<and> row event = Some target"
    and s: "send n event m = Some (b, m')" and ne: "observers m \<noteq> []"
  from t have nx: "nextState m event = Some target" by (simp add: nextState_def)
  from ne obtain ob obs where o: "observers m = ob # obs" by (cases "observers m") auto
  from s nx o have "exec n (Notify ob # map Notify obs) (m\<lparr>currentState := target\<rparr>) = Some m'"
    by (auto simp: send_def)
  from exec_first_notified [OF this] show "\<exists>more. notified m' = notified m @ target # more"
    by simp
next
  fix row target
  assume t: "transitions m (currentState m) = Some row \<and> row event = Some target"
    and q: "(\<forall>ob \<in> set (observers m). ob target = []) \<and> length (observers m) \<le> n"
  from t have nx: "nextState m event = Some target" by (simp add: nextState_def)
  let ?m = "m\<lparr>currentState := target\<rparr>"
  have "exec n (map Notify (observers m)) ?m =
      Some (?m\<lparr>notified := notified ?m @ replicate (length (observers m)) (currentState ?m)\<rparr>)"
    by (rule exec_quiet) (use q in simp_all)
  with nx show "send n event m =
      Some (True, m\<lparr>currentState := target,
                     notified := notified m @ replicate (length (observers m)) target\<rparr>)"
    by (simp add: send_def)
qed

theorem send_atomic_on_failure_witness:
  "send 5 7 \<lparr>currentState = 10, transitions = [10 \<mapsto> [3 \<mapsto> 11]], observers = [quiet],
              notified = []\<rparr>
   = Some (False, \<lparr>currentState = 10, transitions = [10 \<mapsto> [3 \<mapsto> 11]], observers = [quiet],
                    notified = []\<rparr>) \<and>
   send 5 3 \<lparr>currentState = 10, transitions = [10 \<mapsto> [3 \<mapsto> 11]], observers = [quiet],
              notified = []\<rparr>
   = Some (True, \<lparr>currentState = 11, transitions = [10 \<mapsto> [3 \<mapsto> 11]], observers = [quiet],
                   notified = [11]\<rparr>)"
proof -
  let ?m = "\<lparr>currentState = 10, transitions = [10 \<mapsto> [3 \<mapsto> 11]], observers = [quiet],
             notified = []\<rparr> :: (nat, nat) StateMachine"
  have none: "\<forall>row. transitions ?m (currentState ?m) = Some row \<longrightarrow> row 7 = None"
    by simp
  have some: "transitions ?m (currentState ?m) = Some [3 \<mapsto> 11] \<and> [3 \<mapsto> 11] (3::nat) = Some (11::nat)"
    by simp
  have q: "(\<forall>ob \<in> set (observers ?m). ob 11 = []) \<and> length (observers ?m) \<le> 5"
    by (simp add: quiet_def)
  from send_atomic_on_failure [of ?m 7 5] none
  have a: "send 5 7 ?m = Some (False, ?m)" by blast
  from send_atomic_on_failure [of ?m 3 5] some q
  have b: "send 5 3 ?m = Some (True, ?m\<lparr>currentState := 11,
      notified := notified ?m @ replicate (length (observers ?m)) 11\<rparr>)"
    by blast
  from a b show ?thesis by simp
qed

section \<open>Properties of ComplexAlgorithms\<close>








text \<open>
  \<open>quickSort\<close> returns whenever \<open><\<close> relates no element to itself: the pivot is then in
  neither part, and both parts are shorter than the array.
\<close>

lemma quickSort_unfold:
  "1 < length array \<Longrightarrow>
     quickSort lt eq array =
       Option.bind (quickSort lt eq (filter (\<lambda>x. lt x (array ! (length array div 2))) array))
         (\<lambda>sortedLess.
            Option.bind (quickSort lt eq (filter (\<lambda>x. lt (array ! (length array div 2)) x) array))
              (\<lambda>sortedGreater.
                 Some (sortedLess @ filter (\<lambda>x. eq x (array ! (length array div 2))) array
                       @ sortedGreater)))"
  by (subst quickSort.simps) (simp add: Let_def)

lemma quickSort_short: "\<not> 1 < length array \<Longrightarrow> quickSort lt eq array = Some array"
  by (subst quickSort.simps) simp

lemma quickSort_returns:
  assumes irrefl: "\<And>x. \<not> lt x x"
  shows "\<exists>ys. quickSort lt eq xs = Some ys"
proof (induction xs rule: length_induct)
  case (1 array)
  show ?case
  proof (cases "1 < length array")
    case False
    then show ?thesis by (simp add: quickSort_short)
  next
    case True
    define pivot where "pivot = array ! (length array div 2)"
    from True have p: "pivot \<in> set array" by (simp add: pivot_def)
    have "length (filter (\<lambda>x. lt x pivot) array) < length array"
      using p by (rule length_filter_less) (rule irrefl)
    with "1.IH" obtain l where l: "quickSort lt eq (filter (\<lambda>x. lt x pivot) array) = Some l"
      by blast
    have "length (filter (\<lambda>x. lt pivot x) array) < length array"
      using p by (rule length_filter_less) (rule irrefl)
    with "1.IH" obtain g where g: "quickSort lt eq (filter (\<lambda>x. lt pivot x) array) = Some g"
      by blast
    from l g show ?thesis
      by (simp add: quickSort_unfold [OF True] pivot_def [symmetric])
  qed
qed





section \<open>Properties of binary64 rounding\<close>

lemma pow2_powi: "pow2 e = 2 powi e"
  by (simp add: pow2_def power_int_def field_simps)

lemma pow2_pos: "0 < pow2 e"
  by (simp add: pow2_powi)

lemma pow2_add: "pow2 (a + b) = pow2 a * pow2 b"
  by (simp add: pow2_powi power_int_add)

lemma pow2_mono: "a \<le> b \<Longrightarrow> pow2 a \<le> pow2 b"
  by (simp add: pow2_powi power_int_increasing)

lemma pow2_less_iff: "pow2 a < pow2 b \<longleftrightarrow> a < b"
proof
  assume "pow2 a < pow2 b"
  show "a < b"
  proof (rule ccontr)
    assume "\<not> a < b"
    then have "pow2 b \<le> pow2 a" by (simp add: pow2_mono)
    with \<open>pow2 a < pow2 b\<close> show False by simp
  qed
next
  assume "a < b"
  then show "pow2 a < pow2 b"
    by (simp add: pow2_powi power_int_strict_increasing)
qed

lemma pow2_nat: "pow2 (int n) = 2 ^ n"
  by (simp add: pow2_def)

lemma pow2_neg: "pow2 (- int n) = 1 / 2 ^ n"
  by (simp add: pow2_powi power_int_minus field_simps)

lemma ilog2_bounds:
  assumes "0 < x"
  shows "pow2 (ilog2 x) \<le> x" and "x < pow2 (ilog2 x + 1)"
proof -
  obtain a b where q: "quotient_of x = (a, b)" by (cases "quotient_of x")
  then have b: "0 < b" and x: "x = of_int a / of_int b"
    using quotient_of_denom_pos [OF q] quotient_of_div [OF q] by simp_all
  with assms have a: "0 < a"
    by (simp add: zero_less_divide_iff)
  define e where "e = bitlen a - bitlen b"
  have il: "ilog2 x = (if pow2 e \<le> x then e else e - 1)"
    by (simp add: ilog2_def q e_def Let_def)
  from bitlen_bounds [OF a] have a1: "(2::rat) ^ nat (bitlen a - 1) \<le> of_int a"
    and a2: "of_int a < (2::rat) ^ nat (bitlen a)"
    by (metis of_int_le_iff of_int_numeral of_int_power, metis of_int_less_iff of_int_numeral of_int_power)
  from bitlen_bounds [OF b] have b1: "(2::rat) ^ nat (bitlen b - 1) \<le> of_int b"
    and b2: "of_int b < (2::rat) ^ nat (bitlen b)"
    by (metis of_int_le_iff of_int_numeral of_int_power, metis of_int_less_iff of_int_numeral of_int_power)
  have la: "1 \<le> bitlen a" and lb: "1 \<le> bitlen b"
    using a b bitlen_eq_zero_iff [of a] bitlen_eq_zero_iff [of b] bitlen_nonneg [of a] bitlen_nonneg [of b]
    by linarith+
  have pa1: "pow2 (bitlen a - 1) \<le> of_int a" using a1 la by (simp add: pow2_def)
  have pa2: "of_int a < pow2 (bitlen a)" using a2 la by (simp add: pow2_def)
  have pb1: "pow2 (bitlen b - 1) \<le> of_int b" using b1 lb by (simp add: pow2_def)
  have pb2: "of_int b < pow2 (bitlen b)" using b2 lb by (simp add: pow2_def)
  have bpos: "(0::rat) < of_int b" using b by simp
  have lower: "pow2 (e - 1) \<le> x"
  proof -
    have "pow2 (e - 1) * of_int b \<le> pow2 (e - 1) * pow2 (bitlen b)"
      using pb2 pow2_pos [of "e - 1"] by (simp add: mult_left_mono less_imp_le)
    also have "\<dots> = pow2 (bitlen a - 1)"
      by (simp add: pow2_add [symmetric] e_def)
    also have "\<dots> \<le> of_int a" by (rule pa1)
    finally show ?thesis using bpos by (simp add: x pos_le_divide_eq)
  qed
  have upper: "x < pow2 (e + 1)"
  proof -
    have "of_int a < pow2 (bitlen a)" by (rule pa2)
    also have "\<dots> = pow2 (e + 1) * pow2 (bitlen b - 1)"
      by (simp add: pow2_add [symmetric] e_def)
    also have "\<dots> \<le> pow2 (e + 1) * of_int b"
      using pb1 pow2_pos [of "e + 1"] by (simp add: mult_left_mono less_imp_le)
    finally show ?thesis using bpos by (simp add: x pos_divide_less_eq)
  qed
  show "pow2 (ilog2 x) \<le> x" using il lower by simp
  show "x < pow2 (ilog2 x + 1)" using il upper by (auto simp: not_le)
qed

lemma ilog2_unique:
  assumes "pow2 e \<le> x" "x < pow2 (e + 1)"
  shows "ilog2 x = e"
proof -
  have "0 < x" using assms(1) pow2_pos [of e] by simp
  note b = ilog2_bounds [OF this]
  have "pow2 e < pow2 (ilog2 x + 1)" using assms(1) b(2) by simp
  then have "e < ilog2 x + 1" by (simp add: pow2_less_iff)
  moreover have "pow2 (ilog2 x) < pow2 (e + 1)" using assms(2) b(1) by simp
  then have "ilog2 x < e + 1" by (simp add: pow2_less_iff)
  ultimately show ?thesis by simp
qed

lemma round_half_even_bounds:
  "of_int (round_half_even q) \<le> q + 1 / 2" "q - 1 / 2 \<le> of_int (round_half_even q)"
proof -
  define f where "f = \<lfloor>q\<rfloor>"
  define d where "d = q - of_int f"
  have q: "q = of_int f + d" by (simp add: d_def)
  have d: "0 \<le> d" "d < 1" unfolding d_def f_def by linarith+
  have r: "round_half_even q =
      (if d < 1 / 2 then f else if 1 / 2 < d then f + 1 else if even f then f else f + 1)"
    by (simp add: round_half_even_def Let_def f_def d_def)
  have "of_int (round_half_even q) \<le> of_int f + d + 1 / 2"
    using d by (auto simp: r)
  then show "of_int (round_half_even q) \<le> q + 1 / 2"
    by (simp add: d_def)
  have "of_int f + d - 1 / 2 \<le> of_int (round_half_even q)"
    using d by (auto simp: r)
  then show "q - 1 / 2 \<le> of_int (round_half_even q)"
    by (simp add: d_def)
qed

lemma round_half_even_of_int: "round_half_even (of_int k) = k"
  by (simp add: round_half_even_def)

lemma round_half_even_nonneg: "0 \<le> q \<Longrightarrow> 0 \<le> round_half_even q"
  by (auto simp: round_half_even_def Let_def)

lemma fl64_eq: "x \<noteq> 0 \<Longrightarrow> fl64 x = of_int (round_half_even (x / ulp x)) * ulp x"
  by (simp add: fl64_def ulp_def Let_def)

lemma fl64_error:
  "fl64 x \<le> x + ulp x / 2" "x - ulp x / 2 \<le> fl64 x"
proof -
  have u: "0 < ulp x" by (simp add: ulp_def pow2_pos)
  show "fl64 x \<le> x + ulp x / 2"
  proof (cases "x = 0")
    case True
    with u show ?thesis by (simp add: fl64_def)
  next
    case False
    have "of_int (round_half_even (x / ulp x)) * ulp x \<le> (x / ulp x + 1 / 2) * ulp x"
      using round_half_even_bounds(1) [of "x / ulp x"] u by (simp add: mult_right_mono)
    also have "\<dots> = x + ulp x / 2" using u by (simp add: field_simps)
    finally show ?thesis using False by (simp add: fl64_eq)
  qed
  show "x - ulp x / 2 \<le> fl64 x"
  proof (cases "x = 0")
    case True
    with u show ?thesis by (simp add: fl64_def)
  next
    case False
    have "(x / ulp x - 1 / 2) * ulp x \<le> of_int (round_half_even (x / ulp x)) * ulp x"
      using round_half_even_bounds(2) [of "x / ulp x"] u by (simp add: mult_right_mono)
    moreover have "(x / ulp x - 1 / 2) * ulp x = x - ulp x / 2" using u by (simp add: field_simps)
    ultimately show ?thesis using False by (simp add: fl64_eq)
  qed
qed

lemma fl64_nonneg: "0 \<le> x \<Longrightarrow> 0 \<le> fl64 x"
proof (cases "x = 0")
  case True
  then show ?thesis by (simp add: fl64_def)
next
  case False
  assume "0 \<le> x"
  have u: "0 < ulp x" by (simp add: ulp_def pow2_pos)
  with \<open>0 \<le> x\<close> have "0 \<le> round_half_even (x / ulp x)"
    by (simp add: round_half_even_nonneg)
  with u False show ?thesis by (simp add: fl64_eq)
qed

lemma ulp_le:
  assumes "pow2 (- 1022) \<le> \<bar>x\<bar>"
  shows "ulp x \<le> \<bar>x\<bar> / 2 ^ 52"
proof -
  have pos: "0 < \<bar>x\<bar>" using assms pow2_pos [of "- 1022"] by simp
  have "- 1022 \<le> ilog2 \<bar>x\<bar>"
  proof -
    have "pow2 (- 1022) < pow2 (ilog2 \<bar>x\<bar> + 1)"
      using assms ilog2_bounds(2) [OF pos] by simp
    then show ?thesis by (simp add: pow2_less_iff)
  qed
  then have "ulp x = pow2 (ilog2 \<bar>x\<bar>) * pow2 (- 52)"
    by (simp add: ulp_def max_def pow2_add [symmetric])
  also have "\<dots> \<le> \<bar>x\<bar> * pow2 (- 52)"
    using ilog2_bounds(1) [OF pos] pow2_pos [of "- 52"] by (simp add: mult_right_mono)
  also have "pow2 (- 52) = 1 / 2 ^ 52" using pow2_neg [of 52] by simp
  finally show ?thesis by simp
qed

lemma fl64_relative:
  assumes "1 \<le> x"
  shows "x * (1 - 1 / 2 ^ 53) \<le> fl64 x" and "fl64 x \<le> x * (1 + 1 / 2 ^ 53)"
proof -
  have "pow2 (- 1022) \<le> pow2 0" by (rule pow2_mono) simp
  also have "pow2 0 = 1" by (simp add: pow2_def)
  finally have "pow2 (- 1022) \<le> \<bar>x\<bar>" using assms by simp
  from ulp_le [OF this] have u: "ulp x \<le> x / 2 ^ 52" using assms by simp
  show "x * (1 - 1 / 2 ^ 53) \<le> fl64 x"
    using fl64_error(2) [of x] u by (simp add: field_simps)
  show "fl64 x \<le> x * (1 + 1 / 2 ^ 53)"
    using fl64_error(1) [of x] u by (simp add: field_simps)
qed

section \<open>Properties of HeavyProcessor and MatrixCalculator\<close>

lemma fl64_lower: "1 \<le> x \<Longrightarrow> 999 / 1000 * x \<le> fl64 x"
proof -
  assume x: "1 \<le> x"
  have "999 / 1000 * x \<le> x * (1 - 1 / 2 ^ 53)"
    using x by (simp add: field_simps)
  also have "\<dots> \<le> fl64 x" by (rule fl64_relative(1) [OF x])
  finally show ?thesis .
qed

lemma fl64_upper: "1 \<le> x \<Longrightarrow> fl64 x \<le> 1001 / 1000 * x"
proof -
  assume x: "1 \<le> x"
  have "fl64 x \<le> x * (1 + 1 / 2 ^ 53)" by (rule fl64_relative(2) [OF x])
  also have "\<dots> \<le> 1001 / 1000 * x"
    using x by (simp add: field_simps)
  finally show ?thesis .
qed

lemma map_trap_Inr:
  "map_trap f xs = Inr ys \<Longrightarrow> length ys = length xs \<and> (\<forall>j < length xs. f (xs ! j) = Inr (ys ! j))"
proof (induction xs arbitrary: ys)
  case Nil
  then show ?case by simp
next
  case (Cons x xs)
  from Cons.prems obtain y ys' where fx: "f x = Inr y" and m: "map_trap f xs = Inr ys'"
    and ys: "ys = y # ys'"
    by (auto split: sum.splits)
  from Cons.IH [OF m] fx ys show ?case
    by (auto simp: nth_Cons split: nat.splits)
qed

lemma generateSequence_Inr:
  assumes "generateSequence start cnt = Inr xs"
  shows "length xs = cnt" and "\<forall>n \<in> set xs. start \<le> n"
proof -
  let ?f = "\<lambda>k. case checked (int k * 7) of Inl t \<Rightarrow> Inl t | Inr p \<Rightarrow> checked (start + p)"
  from assms have m: "map_trap ?f [0..<cnt] = Inr xs" by (simp add: generateSequence_def)
  note r = map_trap_Inr [OF m]
  from r show len: "length xs = cnt" by simp
  show "\<forall>n \<in> set xs. start \<le> n"
  proof
    fix n assume "n \<in> set xs"
    then obtain j where j: "j < length xs" "xs ! j = n" by (auto simp: in_set_conv_nth)
    with r len have "?f j = Inr n" by auto
    then have "n = start + int j * 7"
      by (auto simp: checked_def split: sum.splits if_splits)
    then show "start \<le> n" by simp
  qed
qed

lemma const_pi_lower: "313 / 100 \<le> fl64 (314159 / 100000)"
proof -
  have "313 / 100 \<le> 999 / 1000 * (314159 / 100000 :: rat)" by simp
  also have "\<dots> \<le> fl64 (314159 / 100000)" by (rule fl64_lower) simp
  finally show ?thesis .
qed

lemma const_e_bounds: "0 < fl64 (271828 / 100000)" "fl64 (271828 / 100000) \<le> 273 / 100"
proof -
  have "0 < 999 / 1000 * (271828 / 100000 :: rat)" by simp
  also have "\<dots> \<le> fl64 (271828 / 100000)" by (rule fl64_lower) simp
  finally show "0 < fl64 (271828 / 100000)" .
  have "fl64 (271828 / 100000) \<le> 1001 / 1000 * (271828 / 100000 :: rat)"
    by (rule fl64_upper) simp
  also have "\<dots> \<le> 273 / 100" by simp
  finally show "fl64 (271828 / 100000) \<le> 273 / 100" .
qed

lemma element_lower:
  assumes "1 \<le> n"
  shows "11 / 10 * of_int n
    \<le> fl64 (fl64 (double_of_int n * fl64 (314159 / 100000)) / fl64 (271828 / 100000))"
proof -
  define x :: rat where "x = of_int n"
  define cp where "cp = fl64 (314159 / 100000)"
  define ce where "ce = fl64 (271828 / 100000)"
  have x: "1 \<le> x" using assms by (simp add: x_def)
  have cp: "313 / 100 \<le> cp" unfolding cp_def by (rule const_pi_lower)
  have ce: "0 < ce" "ce \<le> 273 / 100" unfolding ce_def by (rule const_e_bounds)+
  have d0: "999 / 1000 * x \<le> fl64 x" by (rule fl64_lower [OF x])
  have "312 / 100 * x \<le> (999 / 1000 * x) * (313 / 100)" using x by simp
  also have "\<dots> \<le> fl64 x * cp"
    using d0 cp x by (intro mult_mono) simp_all
  finally have p: "312 / 100 * x \<le> fl64 x * cp" .
  have "1 \<le> 312 / 100 * x" using x by simp
  then have p1: "1 \<le> fl64 x * cp" using p by (rule order_trans)
  have "311 / 100 * x \<le> 999 / 1000 * (312 / 100 * x)" using x by simp
  also have "\<dots> \<le> 999 / 1000 * (fl64 x * cp)"
    by (rule mult_left_mono [OF p]) simp
  also have "\<dots> \<le> fl64 (fl64 x * cp)" by (rule fl64_lower [OF p1])
  finally have d1: "311 / 100 * x \<le> fl64 (fl64 x * cp)" .
  have "113 / 100 * x * ce \<le> 113 / 100 * x * (273 / 100)"
    using ce x by (intro mult_left_mono) simp_all
  also have "\<dots> \<le> 311 / 100 * x" using x by simp
  also have "\<dots> \<le> fl64 (fl64 x * cp)" by (rule d1)
  finally have q: "113 / 100 * x \<le> fl64 (fl64 x * cp) / ce"
    using ce by (simp add: pos_le_divide_eq)
  have "1 \<le> 113 / 100 * x" using x by simp
  then have q1: "1 \<le> fl64 (fl64 x * cp) / ce" using q by (rule order_trans)
  have "11 / 10 * x \<le> 999 / 1000 * (113 / 100 * x)" using x by simp
  also have "\<dots> \<le> 999 / 1000 * (fl64 (fl64 x * cp) / ce)"
    by (rule mult_left_mono [OF q]) simp
  also have "\<dots> \<le> fl64 (fl64 (fl64 x * cp) / ce)" by (rule fl64_lower [OF q1])
  finally show ?thesis by (simp add: double_of_int_def x_def cp_def ce_def)
qed

lemma threshold_upper:
  assumes "0 \<le> i" "i \<le> n" "1 \<le> n"
  shows "double_of_int i < 11 / 10 * of_int n"
proof (cases "i = 0")
  case True
  with assms show ?thesis by (simp add: double_of_int_def fl64_def)
next
  case False
  with assms have i: "(1::rat) \<le> of_int i" by simp
  have "double_of_int i \<le> 1001 / 1000 * of_int i"
    unfolding double_of_int_def by (rule fl64_upper [OF i])
  also have "\<dots> \<le> 1001 / 1000 * of_int n" using assms by simp
  also have "\<dots> < 11 / 10 * of_int n" using assms by simp
  finally show ?thesis .
qed

lemma sum_lower:
  assumes "\<forall>d \<in> set ds. L \<le> d" and "1 \<le> L" and "0 \<le> acc"
    and "L * of_nat m * (999 / 1000) ^ m \<le> acc"
  shows "L * of_nat (m + length ds) * (999 / 1000) ^ (m + length ds)
    \<le> foldl (\<lambda>a d. fl64 (a + d)) acc ds"
  using assms
proof (induction ds arbitrary: acc m)
  case Nil
  then show ?case by simp
next
  case (Cons d ds)
  let ?r = "999 / 1000 :: rat"
  from Cons.prems have d: "L \<le> d" by simp
  with Cons.prems have one: "1 \<le> acc + d" by simp
  have pw: "?r ^ m \<le> 1" by (simp add: power_le_one)
  have pw0: "0 \<le> ?r ^ m" by simp
  have "L * ?r ^ m \<le> L" using pw Cons.prems(2) by (simp add: mult_left_le)
  also have "\<dots> \<le> d" by (rule d)
  finally have dd: "L * ?r ^ m \<le> d" .
  have "L * of_nat (Suc m) * ?r ^ Suc m = ?r * (L * of_nat m * ?r ^ m + L * ?r ^ m)"
    by (simp add: algebra_simps)
  also have "\<dots> \<le> ?r * (acc + d)"
    using Cons.prems(4) dd by simp
  also have "\<dots> \<le> fl64 (acc + d)" by (rule fl64_lower [OF one])
  finally have inv: "L * of_nat (Suc m) * ?r ^ Suc m \<le> fl64 (acc + d)" .
  have nn: "0 \<le> fl64 (acc + d)" using one by (simp add: fl64_nonneg)
  have all: "\<forall>d \<in> set ds. L \<le> d" using Cons.prems(1) by simp
  from Cons.IH [OF all Cons.prems(2) nn inv] show ?case by simp
qed

lemma generateSequence_nth:
  assumes "generateSequence start cnt = Inr xs" and "j < cnt"
  shows "xs ! j = start + int j * 7"
proof -
  let ?f = "\<lambda>k. case checked (int k * 7) of Inl t \<Rightarrow> Inl t | Inr p \<Rightarrow> checked (start + p)"
  from assms(1) have m: "map_trap ?f [0..<cnt] = Inr xs" by (simp add: generateSequence_def)
  from map_trap_Inr [OF m] assms(2) have "?f j = Inr (xs ! j)" by auto
  then show ?thesis
    by (auto simp: checked_def split: sum.splits if_splits)
qed

lemma foldl_fl64_nonneg:
  "0 \<le> acc \<Longrightarrow> \<forall>d \<in> set ds. 0 \<le> d \<Longrightarrow> 0 \<le> foldl (\<lambda>a d. fl64 (a + d)) acc ds"
proof (induction ds arbitrary: acc)
  case Nil
  then show ?case by simp
next
  case (Cons d ds)
  then have "0 \<le> fl64 (acc + d)" by (simp add: fl64_nonneg)
  with Cons show ?case by simp
qed

lemma int_of_double_in_range: "int_of_double d = Inr r \<Longrightarrow> r < 2 ^ 63"
proof -
  assume a: "int_of_double d = Inr r"
  then have up: "d < 2 ^ 63" by (auto simp: int_of_double_def split: if_splits)
  show ?thesis
  proof (cases "0 \<le> d")
    case True
    with a have "r = \<lfloor>d\<rfloor>" by (auto simp: int_of_double_def split: if_splits)
    moreover from up have "\<lfloor>d\<rfloor> < 2 ^ 63" by (simp add: floor_less_iff)
    ultimately show ?thesis by simp
  next
    case False
    with a have "r = \<lceil>d\<rceil>" by (auto simp: int_of_double_def split: if_splits)
    moreover from False have "\<lceil>d\<rceil> \<le> 0" by (simp add: ceiling_le_iff)
    ultimately show ?thesis by simp
  qed
qed

lemma complexCalculation_in_range: "complexCalculation v i = Inr r \<Longrightarrow> r < 2 ^ 63"
  by (auto simp: complexCalculation_def reduceSequence_def Let_def
      split: sum.splits dest: int_of_double_in_range)

lemma complexCalculation_nonneg:
  assumes "complexCalculation v i = Inr r" and "0 \<le> i"
  shows "0 \<le> r"
proof -
  from assms(1) obtain xs where
    red: "reduceSequence (filterSequence (transformSequence xs) i) = Inr r"
    by (auto simp: complexCalculation_def Let_def split: sum.splits)
  have "0 \<le> double_of_int i" using assms(2) by (simp add: double_of_int_def fl64_nonneg)
  then have kept: "\<forall>d \<in> set (filterSequence (transformSequence xs) i). 0 \<le> d"
    by (auto simp: filterSequence_def)
  define s where "s = foldl (\<lambda>a d. fl64 (a + d)) 0 (filterSequence (transformSequence xs) i)"
  have s0: "0 \<le> s" unfolding s_def by (rule foldl_fl64_nonneg [OF _ kept]) simp
  from red have "int_of_double s = Inr r" by (simp add: reduceSequence_def s_def)
  with s0 have "r = \<lfloor>s\<rfloor>" by (auto simp: int_of_double_def split: if_splits)
  with s0 show ?thesis by simp
qed

lemma complexCalculation_doubles:
  assumes "complexCalculation v i = Inr r" and "0 \<le> v" and "0 \<le> i" and "i \<le> v + 7"
  shows "2 * (v + 1) \<le> r"
proof -
  from assms(1) obtain xs where g: "generateSequence v 100 = Inr xs"
    and red: "reduceSequence (filterSequence (transformSequence xs) i) = Inr r"
    by (auto simp: complexCalculation_def Let_def split: sum.splits)
  note gs = generateSequence_Inr [OF g]
  from gs(1) obtain x0 rest where xs: "xs = x0 # rest" and lr: "length rest = 99"
    by (cases xs) auto
  let ?T = "\<lambda>n. fl64 (fl64 (double_of_int n * fl64 (314159 / 100000)) / fl64 (271828 / 100000))"
  let ?P = "\<lambda>d. d > double_of_int i"
  let ?L = "11 / 10 * of_int (v + 7) :: rat"
  have rest_ge: "\<forall>n \<in> set rest. v + 7 \<le> n"
  proof
    fix n assume "n \<in> set rest"
    then obtain j where j: "j < length rest" "rest ! j = n" by (auto simp: in_set_conv_nth)
    with lr have "Suc j < 100" by simp
    from generateSequence_nth [OF g this] xs j have "n = v + int (Suc j) * 7" by simp
    then show "v + 7 \<le> n" by simp
  qed
  have elems: "\<forall>d \<in> set (map ?T rest). ?L \<le> d"
  proof
    fix d assume "d \<in> set (map ?T rest)"
    then obtain n where n: "n \<in> set rest" and d: "d = ?T n" by auto
    from n rest_ge have vn: "v + 7 \<le> n" by simp
    with assms(2) have "1 \<le> n" by simp
    from element_lower [OF this] d have "11 / 10 * of_int n \<le> d" by simp
    moreover have "?L \<le> 11 / 10 * of_int n" using vn by simp
    ultimately show "?L \<le> d" by simp
  qed
  have thr: "double_of_int i < ?L"
    by (rule threshold_upper) (use assms in simp_all)
  have keep: "filter ?P (map ?T rest) = map ?T rest"
    using elems thr by (intro filter_True) fastforce
  define pre where "pre = (if ?P (?T x0) then [?T x0] else [])"
  have fs: "filterSequence (transformSequence xs) i = pre @ map ?T rest"
    using keep by (simp add: filterSequence_def transformSequence_def xs pre_def)
  have thr0: "0 \<le> double_of_int i" using assms(3) by (simp add: double_of_int_def fl64_nonneg)
  define acc0 where "acc0 = foldl (\<lambda>a d. fl64 (a + d)) 0 pre"
  have acc0: "0 \<le> acc0"
    unfolding acc0_def by (rule foldl_fl64_nonneg) (use thr0 in \<open>auto simp: pre_def\<close>)
  define s where "s = foldl (\<lambda>a d. fl64 (a + d)) 0 (filterSequence (transformSequence xs) i)"
  have s_eq: "s = foldl (\<lambda>a d. fl64 (a + d)) acc0 (map ?T rest)"
    by (simp add: s_def fs acc0_def)
  have L1: "1 \<le> ?L" using assms(2) by simp
  have "?L * of_nat (0 + length (map ?T rest)) * (999 / 1000) ^ (0 + length (map ?T rest)) \<le> s"
    unfolding s_eq by (rule sum_lower [OF elems L1 acc0]) (simp add: acc0)
  then have "?L * 99 * (999 / 1000) ^ 99 \<le> s" by (simp add: lr)
  moreover have "(9 / 10 :: rat) \<le> (999 / 1000) ^ 99" by (simp add: power_divide)
  then have "?L * 99 * (9 / 10) \<le> ?L * 99 * (999 / 1000) ^ 99"
    using L1 by (intro mult_left_mono) simp_all
  ultimately have "?L * 99 * (9 / 10) \<le> s" by (rule order_trans [rotated])
  moreover have "of_int (98 * (v + 7)) \<le> ?L * 99 * (9 / 10)" using assms(2) by simp
  ultimately have s98: "of_int (98 * (v + 7)) \<le> s" by (rule order_trans [rotated])
  have "(0::rat) \<le> of_int (98 * (v + 7))" using assms(2) by simp
  then have s0: "0 \<le> s" using s98 by (rule order_trans)
  from red have conv: "int_of_double s = Inr r"
    by (simp add: reduceSequence_def s_def)
  then have r: "r = \<lfloor>s\<rfloor>"
    using s0 by (auto simp: int_of_double_def split: if_splits)
  from s98 have "98 * (v + 7) \<le> \<lfloor>s\<rfloor>" by (simp add: le_floor_iff)
  with assms(2) r show "2 * (v + 1) \<le> r" by simp
qed

lemma process_loop_doubles:
  "process_loop [k..<k + n] v = Inr r \<Longrightarrow> 0 \<le> v \<Longrightarrow> int k \<le> v + 7 \<Longrightarrow>
     2 ^ n * (v + 1) \<le> r + 1"
proof (induction n arbitrary: k v)
  case 0
  then show ?case by simp
next
  case (Suc n)
  have l: "[k..<k + Suc n] = k # [Suc k..<Suc k + n]"
    by (simp add: upt_conv_Cons)
  from Suc.prems(1) have "process_loop (k # [Suc k..<Suc k + n]) v = Inr r"
    by (simp only: l)
  then obtain r1 where c: "complexCalculation v (int k) = Inr r1"
    and rest: "process_loop [Suc k..<Suc k + n] r1 = Inr r"
    by (auto simp del: upt_Suc split: sum.splits)
  from complexCalculation_doubles [OF c Suc.prems(2) _ Suc.prems(3)]
  have g: "2 * (v + 1) \<le> r1" by simp
  with Suc.prems(2,3) have r1: "0 \<le> r1" "int (Suc k) \<le> r1 + 7" by simp_all
  have "2 ^ Suc n * (v + 1) = 2 ^ n * (2 * (v + 1))" by simp
  also have "\<dots> \<le> 2 ^ n * (r1 + 1)" using g by simp
  also from Suc.IH [OF rest r1] have "\<dots> \<le> r + 1" .
  finally show ?case .
qed

lemma process_loop_in_range:
  "process_loop ks v = Inr r \<Longrightarrow> ks \<noteq> [] \<Longrightarrow> r < 2 ^ 63"
proof (induction ks arbitrary: v)
  case Nil
  then show ?case by simp
next
  case (Cons k ks)
  from Cons.prems(1) obtain r1 where c: "complexCalculation v (int k) = Inr r1"
    and rest: "process_loop ks r1 = Inr r"
    by (auto split: sum.splits)
  show ?case
  proof (cases "ks = []")
    case True
    with rest complexCalculation_in_range [OF c] show ?thesis by simp
  next
    case False
    from Cons.IH [OF rest False] show ?thesis .
  qed
qed

lemma process_loop_from_0:
  assumes "process_loop [0..<Suc n] v = Inr r"
  shows "2 ^ n \<le> r + 1" and "r < 2 ^ 63"
proof -
  have ne: "[0..<Suc n] \<noteq> []" by (simp only: upt_eq_Nil_conv) simp
  show "r < 2 ^ 63" by (rule process_loop_in_range [OF assms ne])
  have l: "[0..<Suc n] = 0 # [1..<1 + n]"
    by (simp add: upt_conv_Cons del: upt_Suc)
  from assms have "process_loop (0 # [1..<1 + n]) v = Inr r" by (simp only: l)
  then obtain r1 where c: "complexCalculation v (int 0) = Inr r1"
    and rest: "process_loop [1..<1 + n] r1 = Inr r"
    by (auto simp del: upt_Suc split: sum.splits)
  from complexCalculation_nonneg [OF c] have r1: "0 \<le> r1" by simp
  then have "int 1 \<le> r1 + 7" by simp
  have "(2::int) ^ n = 2 ^ n * 1" by simp
  also have "\<dots> \<le> 2 ^ n * (r1 + 1)"
    using r1 by (intro mult_left_mono) simp_all
  also from process_loop_doubles [OF rest r1 \<open>int 1 \<le> r1 + 7\<close>] have "\<dots> \<le> r + 1" .
  finally show "2 ^ n \<le> r + 1" .
qed

lemma processLargeDataset_traps:
  "\<exists>t. processLargeDataset v = Inl t"
proof (rule ccontr)
  assume "\<not> (\<exists>t. processLargeDataset v = Inl t)"
  then obtain r where r: "process_loop [0..<1000] v = Inr r"
    by (cases "processLargeDataset v") (auto simp: processLargeDataset_def)
  have e: "(1000::nat) = Suc 999" by simp
  from r have "process_loop [0..<Suc 999] v = Inr r" unfolding e .
  from process_loop_from_0 [OF this] have "2 ^ 999 \<le> r + 1" "r < 2 ^ 63" .
  moreover have "(2::int) ^ 63 < 2 ^ 999" by simp
  ultimately show False by linarith
qed

lemma generateMatrix_square:
  assumes "0 \<le> sz"
  shows "\<exists>m. generateMatrix calculateElement transformElement sz = Inr m \<and>
           length m = nat (min sz 100) \<and>
           (\<forall>row \<in> set m. length row = nat (min sz 100))"
  using assms by (auto simp: generateMatrix_def transformMatrix_def Let_def)

text \<open>
  C6. \<open>HeavyProcessor.processLargeDataset\<close> does not perform its 1000 iterations. The
  first iteration returns a value that is not negative, and every later one returns more
  than twice its input (the sum of 99 elements, each above the input plus 7), so within
  the first 64 iterations the conversion \<open>Int(...)\<close> or the addition in
  \<open>generateSequence\<close> traps: no input returns. At the input 1 the call \<open>compute(1)\<close>
  ends in a trap and returns no value.
\<close>

theorem processLargeDataset_traps_at_1:
  "\<exists>t. compute 1 = Inl t"
  using processLargeDataset_traps [of 1] by (simp add: compute_def)

section \<open>Properties of the recognition flow\<close>

lemma pow2_numeral_simps:
  "pow2 0 = 1" "pow2 (- 1) = 1 / 2" "pow2 3 = 8" "pow2 (- 53) = 1 / 2 ^ 53"
  "pow2 (- 50) = 1 / 2 ^ 50"
  by (simp_all add: pow2_def)

lemma random_value_le:
  assumes "is_random_value x"
  shows "x \<le> 1 - 1 / 2 ^ 53"
proof (cases "x < 1 / 2")
  case True
  then show ?thesis by simp
next
  case False
  from assms have fx: "fl64 x = x" and x1: "x < 1" by (simp_all add: is_random_value_def)
  from False have half: "pow2 (- 1) \<le> \<bar>x\<bar>" by (simp add: pow2_numeral_simps)
  from x1 False have "\<bar>x\<bar> < pow2 (- 1 + 1)" by (simp add: pow2_numeral_simps)
  with half have "ilog2 \<bar>x\<bar> = - 1" by (rule ilog2_unique)
  then have u: "ulp x = 1 / 2 ^ 53" by (simp add: ulp_def pow2_numeral_simps)
  define k where "k = round_half_even (x / ulp x)"
  from False have "x \<noteq> 0" by auto
  from fl64_eq [OF this] fx have xk: "x = of_int k / 2 ^ 53" by (simp add: k_def u)
  with x1 have "(of_int k :: rat) < 2 ^ 53" by (simp add: field_simps)
  then have "(of_int k :: rat) < of_int (2 ^ 53)" by simp
  then have "k < 2 ^ 53" by (simp only: of_int_less_iff)
  then have "k \<le> 2 ^ 53 - 1" by simp
  then have "(of_int k :: rat) \<le> of_int (2 ^ 53 - 1)" by (simp only: of_int_le_iff)
  then have "(of_int k :: rat) \<le> 2 ^ 53 - 1" by simp
  then have "of_int k / 2 ^ 53 \<le> ((2 ^ 53 - 1) / 2 ^ 53 :: rat)"
    by (simp add: divide_right_mono)
  then show ?thesis by (simp add: xk field_simps)
qed

lemma random_index_range:
  assumes "is_random_value x"
  shows "0 \<le> random_index x" and "random_index x < 5"
proof -
  from assms have x0: "0 \<le> x" by (simp add: is_random_value_def)
  define p where "p = x * 5"
  have p0: "0 \<le> p" using x0 by (simp add: p_def)
  have pu: "p \<le> 5 - 5 / 2 ^ 53" using random_value_le [OF assms] by (simp add: p_def)
  have ri: "random_index x = \<lfloor>fl64 p\<rfloor>" by (simp add: random_index_def mockSongs_def p_def)
  from fl64_nonneg [OF p0] show "0 \<le> random_index x" by (simp add: ri)
  have "fl64 p < 5"
  proof (cases "p = 0")
    case True
    then show ?thesis by (simp add: fl64_def)
  next
    case False
    with p0 have pos: "0 < \<bar>p\<bar>" by simp
    have "pow2 (ilog2 \<bar>p\<bar>) \<le> \<bar>p\<bar>" by (rule ilog2_bounds(1) [OF pos])
    also have "\<bar>p\<bar> < pow2 3" using pu p0 by (simp add: pow2_numeral_simps)
    finally have "ilog2 \<bar>p\<bar> < 3" by (simp add: pow2_less_iff)
    then have "max (ilog2 \<bar>p\<bar>) (- 1022) - 52 \<le> - 50" by simp
    then have "ulp p \<le> pow2 (- 50)" unfolding ulp_def by (rule pow2_mono)
    then have u: "ulp p \<le> 1 / 2 ^ 50" by (simp add: pow2_numeral_simps)
    have "fl64 p \<le> p + ulp p / 2" by (rule fl64_error(1))
    also have "\<dots> \<le> (5 - 5 / 2 ^ 53) + (1 / 2 ^ 50) / 2" using pu u by simp
    also have "\<dots> < 5" by simp
    finally show ?thesis .
  qed
  then show "random_index x < 5" by (simp add: ri floor_less_iff)
qed

lemma random_index_samples:
  "map random_index [0, 1 / 4, 1 / 2, 3 / 4, 7 / 8] = [0, 1, 2, 3, 4]"
  by code_simp

lemma is_random_value_samples:
  "list_all is_random_value [0, 1 / 4, 1 / 2, 3 / 4, 7 / 8]"
  by code_simp

lemmas app_defs = requestPermissions_def requestPermissions_resumed_def startRecording_def
  startRecording_audioModeSet_def startRecording_created_def stopRecording_def
  stopRecording_stopped_def press_def timer_fires_def settled_def loadHistory_def
  await_def console_error_def saveHistory_def getHistory_def

lemma run_snoc: "run (evs @ [ev]) = step (run evs) ev"
  by (simp add: run_def)


text \<open>What resuming an awaited function does to each part of the state.\<close>

lemma timers_resume:
  "timers (resume p e s) = timers s \<or>
   (p = CreateAsync \<and> (\<exists>r. created e = Some r \<and> timers (resume p e s) = timers s @ [(3000, r)]))"
  by (cases p) (auto simp: app_defs Let_def split: option.splits origin.splits)

lemma history_resume: "history (resume p e s) = history s"
  by (cases p) (auto simp: app_defs Let_def split: option.splits origin.splits)


lemma stops_resume:
  "StopAndUnloadAsync r \<in> set (awaiting (resume p e s)) \<Longrightarrow>
   StopAndUnloadAsync r \<in> set (awaiting s)"
  by (cases p) (auto simp: app_defs Let_def split: option.splits origin.splits if_splits)

lemma result_resume:
  "(\<forall>r. p \<noteq> StopAndUnloadAsync r) \<Longrightarrow>
   result (resume p e s) = result s \<or> result (resume p e s) = None"
  by (cases p) (auto simp: app_defs Let_def split: option.splits origin.splits)

lemma timers_step:
  assumes "\<forall>t \<in> set (timers s). fst t = 3000"
  shows "\<forall>t \<in> set (timers (step s ev)). fst t = 3000"
proof (cases ev)
  case (Pair k e)
  show ?thesis
  proof (cases k)
    case (Settled j)
    let ?s = "s\<lparr>awaiting := take j (awaiting s) @ drop (Suc j) (awaiting s)\<rparr>"
    from timers_resume [of "awaiting s ! j" e ?s] assms
    have "\<forall>t \<in> set (timers (resume (awaiting s ! j) e ?s)). fst t = 3000" by auto
    with assms Pair Settled show ?thesis by (simp add: settled_def)
  next
    case TimerFired
    with assms Pair show ?thesis
      by (auto simp: timer_fires_def stopRecording_def await_def split: list.splits)
  qed (use assms Pair in \<open>auto simp: app_defs\<close>)
qed

lemma timers_run: "\<forall>t \<in> set (timers (run evs)). fst t = 3000"
proof (induction evs rule: rev_induct)
  case Nil
  show ?case by (simp add: run_def initial_def)
next
  case (snoc ev evs)
  then show ?case unfolding run_snoc by (rule timers_step)
qed

lemma history_step: "history s = [] \<Longrightarrow> history (step s ev) = []"
proof (cases ev)
  case (Pair k e)
  assume "history s = []"
  with Pair show ?thesis
    by (cases k)
      (auto simp: press_def startRecording_def requestPermissions_def timer_fires_def
        stopRecording_def settled_def history_resume loadHistory_def await_def
        split: list.splits)
qed

lemma history_foldl: "history s = [] \<Longrightarrow> history (foldl step s evs) = []"
  by (induction evs arbitrary: s) (simp_all add: history_step)



lemma set_remove_nth: "x \<in> set (take j xs @ drop (Suc j) xs) \<Longrightarrow> x \<in> set xs"
  by (auto dest: in_set_takeD in_set_dropD)

lemma stops_step:
  assumes "StopAndUnloadAsync r \<in> set (awaiting (step s (k, e)))"
  shows "StopAndUnloadAsync r \<in> set (awaiting s) \<or>
         (k = TimerFired \<and> (\<exists>d pending. timers s = (d, r) # pending))"
proof (cases k)
  case (Settled j)
  show ?thesis
  proof (cases "j < length (awaiting s)")
    case True
    with assms Settled have "StopAndUnloadAsync r \<in> set (awaiting (resume (awaiting s ! j) e
        (s\<lparr>awaiting := take j (awaiting s) @ drop (Suc j) (awaiting s)\<rparr>)))"
      by (simp add: settled_def)
    from stops_resume [OF this]
    have "StopAndUnloadAsync r \<in> set (take j (awaiting s) @ drop (Suc j) (awaiting s))"
      by simp
    then have "StopAndUnloadAsync r \<in> set (awaiting s)" by (rule set_remove_nth)
    then show ?thesis by simp
  next
    case False
    with assms Settled show ?thesis by (simp add: settled_def)
  qed
next
  case TimerFired
  with assms show ?thesis
    by (auto simp: timer_fires_def stopRecording_def await_def split: list.splits)
qed (use assms in \<open>auto simp: app_defs split: if_splits\<close>)

lemma stops_run:
  "StopAndUnloadAsync r \<in> set (awaiting (run evs)) \<Longrightarrow>
   \<exists>before e' after pending. evs = before @ (TimerFired, e') # after \<and>
     timers (run before) = (3000, r) # pending"
proof (induction evs rule: rev_induct)
  case Nil
  then show ?case by (simp add: run_def initial_def)
next
  case (snoc ev evs)
  obtain k e where ev: "ev = (k, e)" by (cases ev)
  from snoc.prems have "StopAndUnloadAsync r \<in> set (awaiting (step (run evs) (k, e)))"
    by (simp add: run_snoc ev)
  from stops_step [OF this] show ?case
  proof
    assume "StopAndUnloadAsync r \<in> set (awaiting (run evs))"
    from snoc.IH [OF this] obtain before e' after pending where
      "evs = before @ (TimerFired, e') # after" "timers (run before) = (3000, r) # pending"
      by blast
    then have "evs @ [ev] = before @ (TimerFired, e') # (after @ [ev]) \<and>
        timers (run before) = (3000, r) # pending" by simp
    then show ?thesis by blast
  next
    assume "k = TimerFired \<and> (\<exists>d pending. timers (run evs) = (d, r) # pending)"
    then obtain d pending where k: "k = TimerFired" and t: "timers (run evs) = (d, r) # pending"
      by blast
    from timers_run [of evs] t have "d = 3000" by simp
    with t k ev have "evs @ [ev] = evs @ (TimerFired, e) # [] \<and>
        timers (run evs) = (3000, r) # pending" by simp
    then show ?thesis by blast
  qed
qed

lemma created_step:
  assumes "k < length (awaiting s)" "awaiting s ! k = CreateAsync" "created e = Some r"
  shows "recording (step s (Settled k, e)) = Some r"
    and "isRecording (step s (Settled k, e))"
    and "timers (step s (Settled k, e)) = timers s @ [(3000, r)]"
  using assms by (simp_all add: settled_def startRecording_created_def)

lemma timer_step:
  assumes "timers s = (d, r) # pending"
  shows "timers (step s (TimerFired, e)) = pending"
    and "awaiting (step s (TimerFired, e)) = awaiting s @ [StopAndUnloadAsync r]"
  using assms by (simp_all add: timer_fires_def stopRecording_def await_def)

lemma stopped_step:
  assumes "k < length (awaiting s)" "awaiting s ! k = StopAndUnloadAsync r" "stopped e"
  shows "\<not> isRecording (step s (Settled k, e))"
    and "recording (step s (Settled k, e)) = None"
    and "result (step s (Settled k, e)) = song_at (random_index (random e))"
  using assms by (simp_all add: settled_def stopRecording_stopped_def saveHistory_def Let_def)

lemma rejected_step:
  assumes "k < length (awaiting s)" "awaiting s ! k = StopAndUnloadAsync r" "\<not> stopped e"
  shows "isRecording (step s (Settled k, e)) = isRecording s"
    and "recording (step s (Settled k, e)) = recording s"
    and "result (step s (Settled k, e)) = result s"
    and "errors (step s (Settled k, e)) = errors s @ [''Failed to stop recording'']"
  using assms by (simp_all add: settled_def stopRecording_stopped_def console_error_def)

lemma other_step:
  assumes "\<not> (\<exists>j r. k = Settled j \<and> j < length (awaiting s) \<and> awaiting s ! j = StopAndUnloadAsync r)"
  shows "result (step s (k, e)) = result s \<or> result (step s (k, e)) = None"
proof (cases k)
  case (Settled j)
  show ?thesis
  proof (cases "j < length (awaiting s)")
    case True
    with assms Settled have "\<forall>r. awaiting s ! j \<noteq> StopAndUnloadAsync r" by simp
    from result_resume [OF this, of e
        "s\<lparr>awaiting := take j (awaiting s) @ drop (Suc j) (awaiting s)\<rparr>"] True Settled
    show ?thesis by (simp add: settled_def)
  next
    case False
    with Settled show ?thesis by (simp add: settled_def)
  qed
qed (auto simp: app_defs split: list.splits)

text \<open>
  C1. A recording is stopped by the timer of 3000 ms that was set when it started:
  when \<open>createAsync\<close> settles, \<open>startRecording\<close> stores the recording, sets \<open>isRecording\<close>
  and sets a timer of 3000 ms for it; every pending timer of a reachable state has that
  delay; a timer that fires calls \<open>stopAndUnloadAsync\<close> on its recording, and every stop
  that a reachable state is waiting for was requested by such a timer. When the stop
  settles, the recognition completes: \<open>isRecording\<close> is false, the recording is
  \<open>null\<close>, and the displayed result is \<open>mockSongs[i]\<close> for the random index
  \<open>i = floor (random * 5)\<close>, which lies within the list of the five fixed songs and
  reaches each of them; the result is the same for every recording and every prior
  state, and no other event displays a song. When \<open>stopAndUnloadAsync\<close> rejects, no
  recognition completes: the error is logged and the state cells keep their values.
\<close>

theorem recognition_is_timed_mock:
  fixes s :: "'r app"
  shows
  "(\<forall>t \<in> set (timers (run evs)). fst t = 3000) \<and>
   (k < length (awaiting s) \<and> awaiting s ! k = CreateAsync \<and> created e = Some r \<longrightarrow>
      recording (step s (Settled k, e)) = Some r \<and> isRecording (step s (Settled k, e)) \<and>
      timers (step s (Settled k, e)) = timers s @ [(3000, r)]) \<and>
   (timers s = (d, r) # pending \<longrightarrow>
      timers (step s (TimerFired, e)) = pending \<and>
      awaiting (step s (TimerFired, e)) = awaiting s @ [StopAndUnloadAsync r]) \<and>
   (StopAndUnloadAsync r \<in> set (awaiting (run evs)) \<longrightarrow>
      (\<exists>before e' after pending'. evs = before @ (TimerFired, e') # after \<and>
         timers (run before) = (3000, r) # pending')) \<and>
   (k < length (awaiting s) \<and> awaiting s ! k = StopAndUnloadAsync r \<and> stopped e \<and>
    is_random_value (random e) \<longrightarrow>
      \<not> isRecording (step s (Settled k, e)) \<and> recording (step s (Settled k, e)) = None \<and>
      0 \<le> random_index (random e) \<and> random_index (random e) < int (length mockSongs) \<and>
      result (step s (Settled k, e)) = Some (mockSongs ! nat (random_index (random e))) \<and>
      (\<forall>(s'::'r app) k' r' e'. k' < length (awaiting s') \<and>
         awaiting s' ! k' = StopAndUnloadAsync r' \<and> stopped e' \<and> random e' = random e \<longrightarrow>
         result (step s' (Settled k', e')) = result (step s (Settled k, e)))) \<and>
   (k < length (awaiting s) \<and> awaiting s ! k = StopAndUnloadAsync r \<and> \<not> stopped e \<longrightarrow>
      isRecording (step s (Settled k, e)) = isRecording s \<and>
      recording (step s (Settled k, e)) = recording s \<and>
      result (step s (Settled k, e)) = result s \<and>
      errors (step s (Settled k, e)) = errors s @ [''Failed to stop recording'']) \<and>
   (\<not> (\<exists>j r'. ev = Settled j \<and> j < length (awaiting s) \<and>
          awaiting s ! j = StopAndUnloadAsync r') \<longrightarrow>
      result (step s (ev, e)) = result s \<or> result (step s (ev, e)) = None) \<and>
   random_index x = \<lfloor>fl64 (x * 5)\<rfloor> \<and>
   map random_index [0, 1 / 4, 1 / 2, 3 / 4, 7 / 8] = [0, 1, 2, 3, 4] \<and>
   list_all is_random_value [0, 1 / 4, 1 / 2, 3 / 4, 7 / 8] \<and>
   map title mockSongs = [''Blinding Lights'', ''Shape of You'', ''Levitating'',
     ''Watermelon Sugar'', ''Bad Guy'']"
proof -
  have len: "int (length mockSongs) = 5" by (simp add: mockSongs_def)
  have stop: "\<not> isRecording (step s (Settled k, e)) \<and> recording (step s (Settled k, e)) = None \<and>
      0 \<le> random_index (random e) \<and> random_index (random e) < int (length mockSongs) \<and>
      result (step s (Settled k, e)) = Some (mockSongs ! nat (random_index (random e))) \<and>
      (\<forall>(s'::'r app) k' r' e'. k' < length (awaiting s') \<and>
         awaiting s' ! k' = StopAndUnloadAsync r' \<and> stopped e' \<and> random e' = random e \<longrightarrow>
         result (step s' (Settled k', e')) = result (step s (Settled k, e)))"
    if h: "k < length (awaiting s) \<and> awaiting s ! k = StopAndUnloadAsync r \<and> stopped e \<and>
      is_random_value (random e)"
  proof -
    from h have a: "k < length (awaiting s)" "awaiting s ! k = StopAndUnloadAsync r" "stopped e"
      and rv: "is_random_value (random e)" by simp_all
    note idx = random_index_range [OF rv]
    have at: "song_at (random_index (random e)) = Some (mockSongs ! nat (random_index (random e)))"
      using idx len by (simp add: song_at_def)
    have same: "result (step s' (Settled k', e')) = result (step s (Settled k, e))"
      if "k' < length (awaiting s') \<and> awaiting s' ! k' = StopAndUnloadAsync r' \<and>
         stopped e' \<and> random e' = random e" for s' :: "'r app" and k' r' e'
      using that stopped_step(3) [of k' s' r' e'] stopped_step(3) [OF a] by simp
    from stopped_step [OF a] idx len at same show ?thesis by simp
  qed
  have ri: "random_index x = \<lfloor>fl64 (x * 5)\<rfloor>"
    by (simp add: random_index_def mockSongs_def)
  have titles: "map title mockSongs = [''Blinding Lights'', ''Shape of You'', ''Levitating'',
      ''Watermelon Sugar'', ''Bad Guy'']"
    by (simp add: mockSongs_def)
  show ?thesis
    using timers_run [of evs] created_step [of k s e r] timer_step [of s d r pending e]
      stops_run [of r evs] stop rejected_step [of k s r e] other_step [of ev s e] ri random_index_samples
      is_random_value_samples titles
    by blast
qed

lemma fl64_half: "fl64 (1 / 2) = 1 / 2"
  by code_simp

lemma random_index_half: "random_index (1 / 2) = 2"
  by code_simp

theorem recognition_is_timed_mock_witness:
  "run [(ShazamMounted, \<lparr>permission = Some True, audioModeSet = True, created = Some (7::nat),
           stopped = True, random = 1 / 2, now = 0\<rparr>),
        (Settled 0, \<lparr>permission = Some True, audioModeSet = True, created = Some 7,
           stopped = True, random = 1 / 2, now = 0\<rparr>),
        (Pressed, \<lparr>permission = Some True, audioModeSet = True, created = Some 7,
           stopped = True, random = 1 / 2, now = 0\<rparr>),
        (Settled 0, \<lparr>permission = Some True, audioModeSet = True, created = Some 7,
           stopped = True, random = 1 / 2, now = 0\<rparr>),
        (Settled 0, \<lparr>permission = Some True, audioModeSet = True, created = Some 7,
           stopped = True, random = 1 / 2, now = 0\<rparr>),
        (TimerFired, \<lparr>permission = Some True, audioModeSet = True, created = Some 7,
           stopped = True, random = 1 / 2, now = 0\<rparr>)]
   = \<lparr>isRecording = True, recording = Some 7, hasPermission = True, result = None,
      awaiting = [StopAndUnloadAsync 7], timers = [], errors = [], history = []\<rparr> \<and>
   is_random_value (1 / 2) \<and>
   \<not> isRecording (step \<lparr>isRecording = True, recording = Some (7::nat), hasPermission = True,
        result = None, awaiting = [StopAndUnloadAsync 7], timers = [], errors = [],
        history = []\<rparr>
      (Settled 0, \<lparr>permission = Some True, audioModeSet = True, created = Some 7,
           stopped = True, random = 1 / 2, now = 0\<rparr>)) \<and>
   recording (step \<lparr>isRecording = True, recording = Some (7::nat), hasPermission = True,
        result = None, awaiting = [StopAndUnloadAsync 7], timers = [], errors = [],
        history = []\<rparr>
      (Settled 0, \<lparr>permission = Some True, audioModeSet = True, created = Some 7,
           stopped = True, random = 1 / 2, now = 0\<rparr>)) = None \<and>
   result (step \<lparr>isRecording = True, recording = Some (7::nat), hasPermission = True,
        result = None, awaiting = [StopAndUnloadAsync 7], timers = [], errors = [],
        history = []\<rparr>
      (Settled 0, \<lparr>permission = Some True, audioModeSet = True, created = Some 7,
           stopped = True, random = 1 / 2, now = 0\<rparr>))
     = Some \<lparr>title = ''Levitating'', artist = ''Dua Lipa''\<rparr> \<and>
   timers (step \<lparr>isRecording = False, recording = None, hasPermission = True,
        result = None, awaiting = [CreateAsync], timers = [], errors = [], history = []\<rparr>
      (Settled 0, \<lparr>permission = Some True, audioModeSet = True, created = Some (7::nat),
           stopped = True, random = 1 / 2, now = 0\<rparr>)) = [(3000, 7)] \<and>
   awaiting (step \<lparr>isRecording = True, recording = Some (7::nat), hasPermission = True,
        result = None, awaiting = [], timers = [(3000, 7)], errors = [], history = []\<rparr>
      (TimerFired, \<lparr>permission = Some True, audioModeSet = True, created = Some 7,
           stopped = True, random = 1 / 2, now = 0\<rparr>)) = [StopAndUnloadAsync 7]"
proof -
  let ?e = "\<lparr>permission = Some True, audioModeSet = True, created = Some (7::nat),
             stopped = True, random = 1 / 2, now = 0\<rparr>"
  let ?evs = "[(ShazamMounted, ?e), (Settled 0, ?e), (Pressed, ?e), (Settled 0, ?e),
               (Settled 0, ?e), (TimerFired, ?e)]"
  let ?s1 = "\<lparr>isRecording = False, recording = None, hasPermission = True,
        result = None, awaiting = [CreateAsync], timers = [], errors = [],
        history = []\<rparr> :: nat app"
  let ?s2 = "\<lparr>isRecording = True, recording = Some (7::nat), hasPermission = True,
        result = None, awaiting = [], timers = [(3000, 7)], errors = [], history = []\<rparr>"
  let ?s3 = "\<lparr>isRecording = True, recording = Some (7::nat), hasPermission = True,
        result = None, awaiting = [StopAndUnloadAsync 7], timers = [], errors = [],
        history = []\<rparr>"
  have r: "run ?evs = ?s3"
    by (simp add: run_def initial_def app_defs)
  have rv: "is_random_value (random ?e)"
    by (simp add: is_random_value_def fl64_half)
  have h1: "0 < length (awaiting ?s1) \<and> awaiting ?s1 ! 0 = CreateAsync \<and> created ?e = Some 7"
    by simp
  have h2: "timers ?s2 = (3000, 7) # []" by simp
  have h3: "0 < length (awaiting ?s3) \<and> awaiting ?s3 ! 0 = StopAndUnloadAsync 7 \<and> stopped ?e \<and>
      is_random_value (random ?e)"
    using rv by simp
  from recognition_is_timed_mock [of ?evs 0 ?s1 ?e 7 3000 "[]" ShazamMounted 0] h1
  have c1: "timers (step ?s1 (Settled 0, ?e)) = timers ?s1 @ [(3000, 7)]" by blast
  from recognition_is_timed_mock [of ?evs 0 ?s2 ?e 7 3000 "[]" ShazamMounted 0] h2
  have c2: "awaiting (step ?s2 (TimerFired, ?e)) = awaiting ?s2 @ [StopAndUnloadAsync 7]"
    by blast
  from recognition_is_timed_mock [of ?evs 0 ?s3 ?e 7 3000 "[]" ShazamMounted 0] h3
  have c3: "\<not> isRecording (step ?s3 (Settled 0, ?e)) \<and> recording (step ?s3 (Settled 0, ?e)) = None \<and>
      result (step ?s3 (Settled 0, ?e)) = Some (mockSongs ! nat (random_index (random ?e)))"
    by blast
  then have c3': "result (step ?s3 (Settled 0, ?e)) = Some \<lparr>title = ''Levitating'', artist = ''Dua Lipa''\<rparr>"
    by (simp add: random_index_half mockSongs_def)
  from r rv c1 c2 c3 c3' show ?thesis by simp
qed

text \<open>
  C5. History persistence is a stub: \<open>getHistory\<close> returns the empty list, \<open>saveHistory\<close>
  changes nothing, and the history of the Library screen is empty in every reachable
  state, before and after \<open>loadHistory\<close>, whatever recognitions have completed.
\<close>

theorem history_is_stubbed:
  "getHistory = [] \<and> saveHistory h s = s \<and> history (run evs) = [] \<and>
   history (loadHistory (run evs)) = [] \<and> history (loadHistory s) = []"
proof -
  have "history (run evs) = []"
    unfolding run_def by (rule history_foldl) (simp add: initial_def)
  then show ?thesis by (simp add: getHistory_def saveHistory_def loadHistory_def)
qed





section \<open>Properties of the specified Fingerprint Index\<close>

lemma foldl_append_entry:
  "foldl (append_entry tid) idx fs h =
     (if h \<in> hash ` set fs then Some (lookup idx h @ entries_of tid fs h) else idx h)"
proof (induction fs arbitrary: idx)
  case Nil
  then show ?case by simp
next
  case (Cons f fs)
  show ?case
    by (simp add: Cons.IH)
      (auto simp: append_entry_def lookup_def entries_of_def filter_empty_conv image_iff)
qed

lemma lookup_remove: "lookup (remove tid idx) h = filter (\<lambda>entry. fst entry \<noteq> tid) (lookup idx h)"
  by (simp add: lookup_def remove_def split: option.splits)

lemma add_at:
  "add t idx h =
     (if h \<in> hash ` set (fingerprints t)
      then Some (filter (\<lambda>entry. fst entry \<noteq> track_id t) (lookup idx h)
                 @ entries_of (track_id t) (fingerprints t) h)
      else map_option (filter (\<lambda>entry. fst entry \<noteq> track_id t)) (idx h))"
  by (simp add: add_def foldl_append_entry lookup_remove) (simp add: remove_def)

lemma lookup_add:
  "lookup (add t idx) h =
     filter (\<lambda>entry. fst entry \<noteq> track_id t) (lookup idx h)
     @ entries_of (track_id t) (fingerprints t) h"
proof (cases "h \<in> hash ` set (fingerprints t)")
  case True
  then show ?thesis by (simp add: lookup_def add_at)
next
  case False
  then have "entries_of (track_id t) (fingerprints t) h = []"
    by (auto simp: entries_of_def filter_empty_conv)
  with False show ?thesis
    by (simp add: lookup_def add_at split: option.splits)
qed

lemma filter_entries_of: "filter (\<lambda>entry. fst entry \<noteq> tid) (entries_of tid fs h) = []"
  by (simp add: entries_of_def filter_empty_conv)

text \<open>Adding a track under an id that is present replaces the entries of that id.\<close>

lemma add_replaces_lookup:
  assumes "track_id t' = track_id t"
  shows "lookup (add t' (add t idx)) h = lookup (add t' idx) h"
proof -
  have "filter (\<lambda>entry. fst entry \<noteq> track_id t') (lookup (add t idx) h)
      = filter (\<lambda>entry. fst entry \<noteq> track_id t') (lookup idx h)"
    by (simp add: lookup_add assms filter_entries_of)
  then show ?thesis by (simp add: lookup_add)
qed

text \<open>
  C4. \<open>add\<close> is idempotent per track id: after \<open>add(t); add(t)\<close> the index is the one
  after a single \<open>add(t)\<close>, so every subsequent \<open>lookup\<close> returns the same sequence; the
  second \<open>add\<close> replaces the entries of the first and duplicates none.
\<close>

theorem add_idempotent:
  "add t (add t idx) = add t idx \<and> lookup (add t (add t idx)) h = lookup (add t idx) h"
proof -
  have "add t (add t idx) h' = add t idx h'" for h'
  proof (cases "h' \<in> hash ` set (fingerprints t)")
    case True
    then show ?thesis
      by (simp add: add_at [of t "add t idx"] lookup_add filter_entries_of)
        (simp add: add_at [of t idx])
  next
    case False
    then show ?thesis
      by (simp add: add_at option.map_comp comp_def)
  qed
  then have "add t (add t idx) = add t idx" by (rule ext)
  then show ?thesis by simp
qed

section \<open>Properties of the specified matching engine\<close>

lemma sort_key_least_first:
  fixes k :: "'a \<Rightarrow> 'k::linorder"
  assumes "x \<in> set xs" and "\<forall>y \<in> set xs. y \<noteq> x \<longrightarrow> k x < k y"
  shows "\<exists>rest. sort_key k xs = x # rest"
proof -
  have s: "set (sort_key k xs) = set xs" by simp
  with assms(1) obtain y rest where yr: "sort_key k xs = y # rest"
    by (cases "sort_key k xs") auto
  have "sorted (map k (sort_key k xs))" by (rule sorted_sort_key)
  with yr have le: "\<forall>z \<in> set rest. k y \<le> k z" by simp
  have "y = x"
  proof (rule ccontr)
    assume ne: "y \<noteq> x"
    from s yr have "y \<in> set xs" by auto
    with assms(2) ne have lt: "k x < k y" by blast
    from s yr assms(1) ne have "x \<in> set rest" by auto
    with le have "k y \<le> k x" by blast
    with lt show False by simp
  qed
  with yr show ?thesis by blast
qed

lemma count_hits:
  "(\<And>q. q \<in> set qs \<Longrightarrow> \<exists>x \<in> set (g q). P x) \<Longrightarrow>
     length qs \<le> length (filter P (concat (map g qs)))"
proof (induction qs)
  case Nil
  then show ?case by simp
next
  case (Cons q qs)
  from Cons.prems [of q] have "filter P (g q) \<noteq> []"
    by (auto simp: filter_empty_conv)
  then have "1 \<le> length (filter P (g q))"
    by (cases "filter P (g q)") simp_all
  moreover have "length qs \<le> length (filter P (concat (map g qs)))"
    by (rule Cons.IH) (simp add: Cons.prems)
  ultimately show ?case by simp
qed

lemma fold_best:
  fixes f :: "'b \<Rightarrow> nat"
  shows "f b \<le> f (fold (\<lambda>c best. if f best < f c then c else best) bs b) \<and>
         (\<forall>c \<in> set bs. f c \<le> f (fold (\<lambda>c best. if f best < f c then c else best) bs b))"
proof (induction bs arbitrary: b)
  case Nil
  then show ?case by simp
next
  case (Cons c bs)
  let ?b' = "if f b < f c then c else b"
  from Cons.IH [of ?b'] have ih: "f ?b' \<le> f (fold (\<lambda>c best. if f best < f c then c else best) bs ?b')"
    and ih2: "\<forall>d \<in> set bs. f d \<le> f (fold (\<lambda>c best. if f best < f c then c else best) bs ?b')"
    by simp_all
  have "f b \<le> f ?b'" "f c \<le> f ?b'" by simp_all
  with ih ih2 show ?case by (simp del: if_split)
qed

lemma best_bin_max:
  "votes_in cfg hs tid b \<le> votes_in cfg hs tid (best_bin cfg hs tid)"
proof (cases "b \<in> set (bins_of cfg hs tid)")
  case False
  then have "filter (\<lambda>hit. fst hit = tid \<and> bin_of cfg (snd hit) = b) hs = []"
    by (auto simp: bins_of_def filter_empty_conv image_iff)
  then show ?thesis by (simp add: votes_in_def)
next
  case True
  then obtain b0 bs where bb: "bins_of cfg hs tid = b0 # bs"
    by (cases "bins_of cfg hs tid") auto
  note fb = fold_best [of "votes_in cfg hs tid" b0 bs]
  from True bb have "b = b0 \<or> b \<in> set bs" by simp
  with fb show ?thesis by (auto simp: best_bin_def bb)
qed

lemma extract_fp_Inr:
  "extract_fp pairs cfg a = Inr qs \<Longrightarrow> length qs = length (pairs a)"
  by (auto simp: extract_fp_def split: if_splits)

lemma own_entry:
  assumes "q \<in> set qs"
  shows "(tid, anchorTimeMs q) \<in> set (lookup
      (add \<lparr>track_id = tid, track_title = ttl, track_artist = art,
            fingerprints = map (\<lambda>f. f\<lparr>trackId := Some tid\<rparr>) qs\<rparr> idx) (hash q))"
proof -
  have "(tid, anchorTimeMs q) \<in> set (entries_of tid (map (\<lambda>f. f\<lparr>trackId := Some tid\<rparr>) qs) (hash q))"
    using assms by (auto simp: entries_of_def image_iff intro!: bexI [of _ q])
  then show ?thesis by (simp add: lookup_add)
qed

lemma own_votes:
  fixes qs tid ttl art idx cfg
  defines "t \<equiv> \<lparr>track_id = tid, track_title = ttl, track_artist = art,
            fingerprints = map (\<lambda>f. f\<lparr>trackId := Some tid\<rparr>) qs\<rparr>"
  shows "length qs \<le> votes (candidate_of cfg (hits qs (add t idx)) tid)"
proof -
  let ?hs = "hits qs (add t idx)"
  let ?g = "\<lambda>q. map (\<lambda>entry. (fst entry, snd entry - anchorTimeMs q)) (lookup (add t idx) (hash q))"
  let ?P = "\<lambda>hit. fst hit = tid \<and> bin_of cfg (snd hit) = 0"
  have "length qs \<le> length (filter ?P (concat (map ?g qs)))"
  proof (rule count_hits)
    fix q assume "q \<in> set qs"
    from own_entry [OF this, of tid ttl art idx]
    have "(tid, anchorTimeMs q) \<in> set (lookup (add t idx) (hash q))" by (simp add: t_def)
    then have "(tid, 0) \<in> set (?g q)" by (force simp: image_iff)
    moreover have "?P (tid, 0)" by (simp add: bin_of_def)
    ultimately show "\<exists>x \<in> set (?g q). ?P x" by blast
  qed
  then have "length qs \<le> votes_in cfg ?hs tid 0"
    by (simp add: votes_in_def hits_def)
  also have "\<dots> \<le> votes_in cfg ?hs tid (best_bin cfg ?hs tid)" by (rule best_bin_max)
  finally show ?thesis by (simp add: candidate_of_def)
qed

lemma positive_votes_hit:
  "0 < votes (candidate_of cfg hs tid) \<Longrightarrow> tid \<in> set (map fst hs)"
  by (auto simp: candidate_of_def votes_in_def filter_empty_conv image_iff)

lemma round_trip_general:
  assumes ex: "extract_fp pairs cfg a = Inr qs"
    and ing: "ingest pairs cfg tid ttl art a eng = Inr (t, eng')"
    and ne: "qs \<noteq> []"
    and thr: "meets_threshold cfg (length qs) (length qs)"
    and acc: "acceptanceThreshold cfg \<le> 1"
    and others: "\<forall>tid'. tid' \<noteq> tid \<longrightarrow>
        votes (candidate_of cfg (hits qs (index_of eng')) tid')
          < votes (candidate_of cfg (hits qs (index_of eng')) tid) \<or>
        votes (candidate_of cfg (hits qs (index_of eng')) tid')
          = votes (candidate_of cfg (hits qs (index_of eng')) tid) \<and> tid < tid'"
  shows "recognise pairs cfg a eng' = \<lparr>status = Matched, res_track = Some t, confidence = 1\<rparr>"
    and "track_id t = tid"
proof -
  from ex ing have t: "t = \<lparr>track_id = tid, track_title = ttl, track_artist = art,
        fingerprints = map (\<lambda>f. f\<lparr>trackId := Some tid\<rparr>) qs\<rparr>"
    and e': "eng' = eng\<lparr>index_of := add t (index_of eng), catalog := (catalog eng)(tid \<mapsto> t)\<rparr>"
    by (auto simp: ingest_def Let_def)
  show "track_id t = tid" by (simp add: t)
  let ?hs = "hits qs (index_of eng')"
  let ?x = "candidate_of cfg ?hs tid"
  let ?key = "\<lambda>c. (- int (votes c), cand_trackId c)"
  let ?cands = "map (candidate_of cfg ?hs) (remdups (map fst ?hs))"
  let ?kept = "filter (\<lambda>c. meets_threshold cfg (length qs) (votes c)) ?cands"
  have idx: "index_of eng' = add t (index_of eng)" by (simp add: e')
  have v: "length qs \<le> votes ?x"
    unfolding idx t by (rule own_votes)
  from ne have n0: "0 < length qs" by simp
  from n0 v have "0 < votes ?x" by (rule less_le_trans)
  then have "tid \<in> set (map fst ?hs)" by (rule positive_votes_hit)
  then have in_cands: "?x \<in> set ?cands" by simp
  have "meets_threshold cfg (length qs) (votes ?x)"
  proof -
    from thr have a: "minVotes cfg \<le> length qs"
      and b: "minVotePercent cfg * length qs \<le> 100 * length qs"
      by (simp_all add: meets_threshold_def del: mult_le_cancel2)
    from a v have "minVotes cfg \<le> votes ?x" by (rule order_trans)
    moreover from v have "100 * length qs \<le> 100 * votes ?x" by simp
    with b have "minVotePercent cfg * length qs \<le> 100 * votes ?x" by (rule order_trans)
    ultimately show ?thesis by (simp add: meets_threshold_def)
  qed
  with in_cands have in_kept: "?x \<in> set ?kept" by simp
  have least: "\<forall>y \<in> set ?kept. y \<noteq> ?x \<longrightarrow> ?key ?x < ?key y"
  proof (intro ballI impI)
    fix y assume y: "y \<in> set ?kept" and yx: "y \<noteq> ?x"
    then obtain tid' where y': "y = candidate_of cfg ?hs tid'" by auto
    with yx have "tid' \<noteq> tid" by auto
    with others have "votes y < votes ?x \<or> votes y = votes ?x \<and> tid < tid'"
      unfolding y' by blast
    moreover have "cand_trackId y = tid'" "cand_trackId ?x = tid"
      by (simp_all add: y' candidate_of_def)
    ultimately show "?key ?x < ?key y"
      by (auto simp: less_prod_def)
  qed
  from sort_key_least_first [of ?x ?kept ?key, OF in_kept least]
  obtain rest where m: "match cfg qs (index_of eng') = ?x # rest"
    by (auto simp: match_def Let_def)
  have "(1::rat) \<le> of_nat (votes ?x) / of_nat (length qs)"
    using v n0 by (simp add: pos_le_divide_eq)
  then have c1: "min 1 (max 0 (of_nat (votes ?x) / of_nat (length qs))) = (1::rat)"
    by (simp add: min_def max_def)
  have cat: "catalog eng' (cand_trackId ?x) = Some t"
    by (simp add: e' candidate_of_def)
  show "recognise pairs cfg a eng' = \<lparr>status = Matched, res_track = Some t, confidence = 1\<rparr>"
    unfolding recognise_def ex m sum.case list.case Let_def c1 using acc cat by simp
qed

lemma hits_fst:
  "hit \<in> set (hits qs idx) \<Longrightarrow> \<exists>h entry. entry \<in> set (lookup idx h) \<and> fst hit = fst entry"
  by (fastforce simp: hits_def)

lemma no_votes:
  "tid' \<notin> fst ` set hs \<Longrightarrow> votes (candidate_of cfg hs tid') = 0"
  by (auto simp: candidate_of_def votes_in_def filter_empty_conv image_iff)

lemma remove_empty: "remove tid Map.empty = Map.empty"
  by (simp add: remove_def)

text \<open>
  C2 as stated fails: a buffer of 1024 silent samples in which the extractor finds no peak
  is ingested as track \<open>A\<close> with no fingerprint; the query with the same buffer has no hit
  and no candidate, and the result is \<open>NoMatch\<close>.
\<close>

theorem round_trip_counterexample:
  "ingest no_pairs default_config ''A'' ''title'' ''artist'' (replicate 1024 0) empty_engine =
     Inr (\<lparr>track_id = ''A'', track_title = ''title'', track_artist = ''artist'', fingerprints = []\<rparr>,
          \<lparr>index_of = Map.empty,
           catalog = [''A'' \<mapsto> \<lparr>track_id = ''A'', track_title = ''title'',
                                track_artist = ''artist'', fingerprints = []\<rparr>]\<rparr>) \<and>
   recognise no_pairs default_config (replicate 1024 0)
     \<lparr>index_of = Map.empty,
      catalog = [''A'' \<mapsto> \<lparr>track_id = ''A'', track_title = ''title'',
                           track_artist = ''artist'', fingerprints = []\<rparr>]\<rparr>
     = \<lparr>status = NoMatch, res_track = None, confidence = 0\<rparr>"
  by (simp add: ingest_def extract_fp_def no_pairs_def default_config_def empty_engine_def
      add_def remove_empty recognise_def match_def hits_def Let_def)

text \<open>
  C2, amended. If extraction of the audio succeeds with at least one fingerprint, their
  number meets the vote threshold, the acceptance threshold is at most 1, and no other
  track gets more votes in its best bin for this query, or as many with a smaller id,
  then after ingesting the audio as a track the query with the same audio is \<open>Matched\<close>
  with confidence 1, which is at least the acceptance threshold, and returns the ingested
  track with its id.
\<close>

theorem round_trip_same_audio:
  assumes "extract_fp pairs cfg a = Inr qs"
    and "ingest pairs cfg tid ttl art a eng = Inr (t, eng')"
    and "qs \<noteq> []"
    and "meets_threshold cfg (length qs) (length qs)"
    and "acceptanceThreshold cfg \<le> 1"
    and "\<forall>tid'. tid' \<noteq> tid \<longrightarrow>
        votes (candidate_of cfg (hits qs (index_of eng')) tid')
          < votes (candidate_of cfg (hits qs (index_of eng')) tid) \<or>
        votes (candidate_of cfg (hits qs (index_of eng')) tid')
          = votes (candidate_of cfg (hits qs (index_of eng')) tid) \<and> tid < tid'"
  shows "status (recognise pairs cfg a eng') = Matched \<and>
         acceptanceThreshold cfg \<le> confidence (recognise pairs cfg a eng') \<and>
         confidence (recognise pairs cfg a eng') = 1 \<and>
         res_track (recognise pairs cfg a eng') = Some t \<and>
         track_id t = tid"
  using round_trip_general [OF assms] assms(5) by simp

theorem round_trip_same_audio_witness:
  "recognise ten_pairs default_config (replicate 1024 0)
     (snd (projr (ingest ten_pairs default_config ''A'' ''title'' ''artist'' (replicate 1024 0)
        empty_engine)))
   = \<lparr>status = Matched,
      res_track = Some (fst (projr (ingest ten_pairs default_config ''A'' ''title'' ''artist''
        (replicate 1024 0) empty_engine))),
      confidence = 1\<rparr> \<and>
   track_id (fst (projr (ingest ten_pairs default_config ''A'' ''title'' ''artist''
        (replicate 1024 0) empty_engine))) = ''A'' \<and>
   meets_threshold default_config 10 10 \<and> acceptanceThreshold default_config \<le> 1"
proof -
  let ?a = "replicate 1024 (0::int)"
  define qs where "qs = sort_key (\<lambda>f. (anchorTimeMs f, hash f))
      (map (\<lambda>(h, t). \<lparr>hash = h, anchorTimeMs = t, trackId = None\<rparr>) (ten_pairs ?a))"
  define t where "t = \<lparr>track_id = ''A'', track_title = ''title'', track_artist = ''artist'',
      fingerprints = map (\<lambda>f. f\<lparr>trackId := Some ''A''\<rparr>) qs\<rparr>"
  define eng' where "eng' = empty_engine\<lparr>index_of := add t (index_of empty_engine),
      catalog := (catalog empty_engine)(''A'' \<mapsto> t)\<rparr>"
  have ex: "extract_fp ten_pairs default_config ?a = Inr qs"
    by (simp add: extract_fp_def default_config_def qs_def)
  have ing: "ingest ten_pairs default_config ''A'' ''title'' ''artist'' ?a empty_engine = Inr (t, eng')"
    by (simp add: ingest_def ex Let_def t_def eng'_def)
  have len: "length qs = 10" by (simp add: qs_def ten_pairs_def)
  then have ne: "qs \<noteq> []" by auto
  have thr: "meets_threshold default_config (length qs) (length qs)"
    by (simp add: len meets_threshold_def default_config_def)
  have acc: "acceptanceThreshold default_config \<le> 1" by (simp add: default_config_def)
  have own: "length qs \<le> votes (candidate_of default_config (hits qs (index_of eng')) ''A'')"
    unfolding eng'_def t_def by simp (rule own_votes)
  have only: "fst ` set (hits qs (index_of eng')) \<subseteq> {''A''}"
  proof
    fix x assume "x \<in> fst ` set (hits qs (index_of eng'))"
    then obtain hit where hit: "hit \<in> set (hits qs (index_of eng'))" "x = fst hit" by auto
    from hits_fst [OF hit(1)] obtain h entry
      where e: "entry \<in> set (lookup (index_of eng') h)" "fst hit = fst entry" by blast
    have "lookup (index_of eng') h = entries_of ''A'' (fingerprints t) h"
      by (simp add: eng'_def empty_engine_def lookup_add t_def) (simp add: lookup_def)
    with e(1) have "fst entry = ''A''"
      by (auto simp: entries_of_def)
    with e(2) hit(2) show "x \<in> {''A''}" by simp
  qed
  have others: "\<forall>tid'. tid' \<noteq> ''A'' \<longrightarrow>
        votes (candidate_of default_config (hits qs (index_of eng')) tid')
          < votes (candidate_of default_config (hits qs (index_of eng')) ''A'') \<or>
        votes (candidate_of default_config (hits qs (index_of eng')) tid')
          = votes (candidate_of default_config (hits qs (index_of eng')) ''A'') \<and> ''A'' < tid'"
  proof (intro allI impI)
    fix tid' :: string assume "tid' \<noteq> ''A''"
    with only have "tid' \<notin> fst ` set (hits qs (index_of eng'))" by auto
    then have "votes (candidate_of default_config (hits qs (index_of eng')) tid') = 0"
      by (rule no_votes)
    with own len show "votes (candidate_of default_config (hits qs (index_of eng')) tid')
          < votes (candidate_of default_config (hits qs (index_of eng')) ''A'') \<or>
        votes (candidate_of default_config (hits qs (index_of eng')) tid')
          = votes (candidate_of default_config (hits qs (index_of eng')) ''A'') \<and> ''A'' < tid'"
      by simp
  qed
  from round_trip_same_audio [OF ex ing ne thr acc others]
  have r: "status (recognise ten_pairs default_config ?a eng') = Matched"
    "confidence (recognise ten_pairs default_config ?a eng') = 1"
    "res_track (recognise ten_pairs default_config ?a eng') = Some t" "track_id t = ''A''"
    by simp_all
  then have "recognise ten_pairs default_config ?a eng'
      = \<lparr>status = Matched, res_track = Some t, confidence = 1\<rparr>"
    by (cases "recognise ten_pairs default_config ?a eng'") simp
  with r(4) ing thr acc len show ?thesis by simp
qed

text \<open>
  A second track ingested from the same audio under a larger id does not come back: the
  tie in votes goes to the smaller id.
\<close>

lemma round_trip_other_track:
  "map_option track_id (res_track (recognise ten_pairs default_config (replicate 1024 0)
     (snd (projr (ingest ten_pairs default_config ''B'' ''title'' ''artist'' (replicate 1024 0)
        (snd (projr (ingest ten_pairs default_config ''A'' ''title'' ''artist'' (replicate 1024 0)
           empty_engine)))))))) = Some ''A''"
  by code_simp

end
